theory Spec2Isabelle
  imports Main "HOL-Library.AList"
begin

section \<open>Values, objects and the heap\<close>

text \<open>
  The context engine of \<^verbatim>\<open>createContext\<close> works on JavaScript objects that have an
  identity: \<^verbatim>\<open>set\<close> rewrites the fields of the store object in place, a live binding
  keeps a reference to it, \<^verbatim>\<open>structuredClone\<close> produces a new object. The model
  therefore keeps an explicit heap. A reference is an index into the heap, an object is
  the list of its own properties in the order of \<^verbatim>\<open>Object.keys\<close>, and a property value is
  a primitive, a reference to another object, a function, or a built-in of the platform
  that is reached through \<^verbatim>\<open>Object.prototype\<close> (\<^verbatim>\<open>structuredClone\<close> refuses functions and
  built-ins). The stores are plain objects: \<^verbatim>\<open>structuredClone\<close> creates them, so their
  prototype is \<^verbatim>\<open>Object.prototype\<close>.
\<close>

datatype val =
    VUndef
  | VNull
  | VBool bool
  | VNum int
  | VStr string
  | VRef nat
  | VFun nat
  | VBuiltin string

type_synonym obj = "(string \<times> val) list"
type_synonym heap = "obj list"

text \<open>Thrown values: \<^verbatim>\<open>new Error(msg)\<close>, the \<^verbatim>\<open>DataCloneError\<close> of
  \<^verbatim>\<open>structuredClone\<close>, and the \<^verbatim>\<open>ReferenceError\<close> of calling an unbound name.\<close>

datatype exn = Error string | DataCloneError | ReferenceError string

definition cell :: "heap \<Rightarrow> nat \<Rightarrow> obj" where
  "cell h r = (if r < length h then h ! r else [])"

definition alloc :: "heap \<Rightarrow> obj \<Rightarrow> heap \<times> nat" where
  "alloc h ob = (h @ [ob], length h)"

text \<open>The members that a plain object inherits from \<^verbatim>\<open>Object.prototype\<close>: its methods,
  and the accessor \<^verbatim>\<open>__proto__\<close>, which returns the prototype itself.\<close>

definition object_prototype :: "string \<Rightarrow> val" where
  "object_prototype k =
     (if k = ''__proto__'' then VBuiltin ''Object.prototype''
      else if k \<in> set [''constructor'', ''toString'', ''toLocaleString'', ''valueOf'',
                         ''hasOwnProperty'', ''isPrototypeOf'', ''propertyIsEnumerable'',
                         ''__defineGetter__'', ''__defineSetter__'', ''__lookupGetter__'',
                         ''__lookupSetter__'']
      then VBuiltin (''Object.prototype.'' @ k)
      else VUndef)"

text \<open>\<^verbatim>\<open>obj[key]\<close> on a plain object: the value of the own property; when there is none,
  the member inherited from \<^verbatim>\<open>Object.prototype\<close>, and \<^verbatim>\<open>undefined\<close> when there is none
  either.\<close>

definition field :: "heap \<Rightarrow> nat \<Rightarrow> string \<Rightarrow> val" where
  "field h r k = (case map_of (cell h r) k of None \<Rightarrow> object_prototype k | Some v \<Rightarrow> v)"

text \<open>The order of the own keys of an object: the array indices (canonical decimal
  numerals below 4294967295) in ascending order, then the other keys in the order of
  their creation.\<close>

definition digit_val :: "char \<Rightarrow> nat" where
  "digit_val c = length (takeWhile (\<lambda>d. d \<noteq> c) ''0123456789'')"

definition index_of :: "string \<Rightarrow> nat option" where
  "index_of k =
     (if k \<noteq> [] \<and> list_all (\<lambda>c. c \<in> set ''0123456789'') k
         \<and> (k = ''0'' \<or> hd k \<noteq> CHR ''0'')
         \<and> foldl (\<lambda>n c. 10 * n + digit_val c) 0 k < 4294967295
      then Some (foldl (\<lambda>n c. 10 * n + digit_val c) 0 k)
      else None)"

definition before_index :: "nat \<Rightarrow> string \<times> val \<Rightarrow> bool" where
  "before_index n p = (case index_of (fst p) of None \<Rightarrow> False | Some m \<Rightarrow> m < n)"

definition insert_key :: "string \<Rightarrow> val \<Rightarrow> obj \<Rightarrow> obj" where
  "insert_key k v ob =
     (case index_of k of
        None \<Rightarrow> ob @ [(k, v)]
      | Some n \<Rightarrow> takeWhile (before_index n) ob @ [(k, v)] @ dropWhile (before_index n) ob)"

text \<open>\<^verbatim>\<open>target[k] = v\<close> on a plain object: an own property is overwritten in place. When
  there is none, the key \<^verbatim>\<open>__proto__\<close> reaches the accessor inherited from
  \<^verbatim>\<open>Object.prototype\<close> and no own property is created; any other key becomes a new own
  property. (The accessor makes an object value the prototype of the target. The targets
  are the temporary object of \<^verbatim>\<open>defaultMerge\<close>, which is only read for its own properties,
  and the store, for which the properties stated below exclude a merge result with an
  own key \<^verbatim>\<open>__proto__\<close>.)\<close>

definition put :: "string \<Rightarrow> val \<Rightarrow> obj \<Rightarrow> obj" where
  "put k v ob =
     (if k \<in> fst ` set ob then AList.update k v ob
      else if k = ''__proto__'' then ob
      else insert_key k v ob)"

text \<open>\<^verbatim>\<open>Object.assign(target, source)\<close>: every own property of the source is written to
  the target with \<^verbatim>\<open>target[k] = v\<close>, in the source's order.\<close>

definition assign :: "obj \<Rightarrow> obj \<Rightarrow> obj" where
  "assign tgt src = fold (\<lambda>(k, v). put k v) src tgt"

text \<open>\<^verbatim>\<open>for (const k of Object.keys(store)) delete store[k]\<close>\<close>

definition delete_keys :: "obj \<Rightarrow> obj" where
  "delete_keys ob = fold AList.delete (map fst ob) ob"

subsection \<open>Observation of a value to a given depth\<close>

text \<open>Stores are compared by their field values. \<open>obs n h v\<close> unfolds the value \<open>v\<close> in
  heap \<open>h\<close> into a tree, following references \<open>n\<close> levels deep; two values with the same
  observation at every depth cannot be told apart by reading fields.\<close>

datatype tval =
    TUndef
  | TNull
  | TBool bool
  | TNum int
  | TStr string
  | TFun nat
  | TBuiltin string
  | TObj "(string \<times> tval) list"
  | TCut

fun obs :: "nat \<Rightarrow> heap \<Rightarrow> val \<Rightarrow> tval" where
  "obs n h VUndef = TUndef"
| "obs n h VNull = TNull"
| "obs n h (VBool b) = TBool b"
| "obs n h (VNum i) = TNum i"
| "obs n h (VStr s) = TStr s"
| "obs n h (VFun f) = TFun f"
| "obs n h (VBuiltin b) = TBuiltin b"
| "obs 0 h (VRef r) = TCut"
| "obs (Suc n) h (VRef r) =
     (if r < length h then TObj (map (\<lambda>(k, v). (k, obs n h v)) (h ! r)) else TCut)"

subsection \<open>\<^verbatim>\<open>structuredClone\<close>\<close>

text \<open>
  The platform's deep copy. It walks the object graph below the argument, visiting every
  object once (so shared and cyclic structure is copied as it is), fails with
  \<^verbatim>\<open>DataCloneError\<close> when it meets a function, and otherwise builds one new object per
  visited object, with every reference redirected to the new objects.
\<close>

fun vrefs :: "val \<Rightarrow> nat list" where
  "vrefs (VRef r) = [r]"
| "vrefs _ = []"

definition orefs :: "obj \<Rightarrow> nat list" where
  "orefs ob = concat (map (\<lambda>(k, v). vrefs v) ob)"

function collect :: "heap \<Rightarrow> nat list \<Rightarrow> nat list \<Rightarrow> nat list" where
  "collect h [] vis = vis"
| "collect h (r # todo) vis =
     (if r \<in> set vis \<or> length h \<le> r then collect h todo vis
      else collect h (orefs (h ! r) @ todo) (vis @ [r]))"
  by pat_completeness auto
termination
proof (relation "measures [\<lambda>(h, todo, vis). card ({..<length h} - set vis),
                            \<lambda>(h, todo, vis). length todo]", goal_cases)
  case 1
  show ?case by simp
next
  case (2 h r todo vis)
  then show ?case by simp
next
  case (3 h r todo vis)
  have eq: "{..<length h} - set (vis @ [r]) = ({..<length h} - set vis) - {r}"
    by auto
  have mem: "r \<in> {..<length h} - set vis"
    using 3 by simp
  have "card (({..<length h} - set vis) - {r}) < card ({..<length h} - set vis)"
    by (rule card_Diff1_less) (use mem in simp_all)
  then show ?case unfolding eq[symmetric] by simp
qed

declare collect.simps [simp del]

fun is_fun :: "val \<Rightarrow> bool" where
  "is_fun (VFun f) = True"
| "is_fun (VBuiltin b) = True"
| "is_fun _ = False"

definition cloneable :: "heap \<Rightarrow> nat list \<Rightarrow> bool" where
  "cloneable h rs = list_all (\<lambda>r. list_all (\<lambda>(k, v). \<not> is_fun v) (h ! r)) rs"

definition idx :: "nat list \<Rightarrow> nat \<Rightarrow> nat" where
  "idx rs r = length (takeWhile (\<lambda>q. q \<noteq> r) rs)"

fun rn :: "nat list \<Rightarrow> nat \<Rightarrow> val \<Rightarrow> val" where
  "rn rs n (VRef q) = VRef (n + idx rs q)"
| "rn rs n v = v"

definition copy_cell :: "heap \<Rightarrow> nat list \<Rightarrow> nat \<Rightarrow> obj" where
  "copy_cell h rs q = map (\<lambda>(k, v). (k, rn rs (length h) v)) (h ! q)"

definition structuredClone :: "heap \<Rightarrow> nat \<Rightarrow> exn + (heap \<times> nat)" where
  "structuredClone h r =
     (let rs = collect h [r] []
      in if cloneable h rs then Inr (h @ map (copy_cell h rs) rs, length h + idx rs r)
         else Inl DataCloneError)"


section \<open>The context engine\<close>

text \<open>
  The state that the engine's operations read and write: the heap, and the store that
  the \<^verbatim>\<open>AsyncLocalStorage\<close> instance of this context has associated with the running
  code (\<open>None\<close> outside every scope). A JavaScript function is a state transformer that
  returns a value or throws.
\<close>

record state =
  heap :: heap
  active :: "nat option"

type_synonym 'a js = "state \<Rightarrow> (exn + 'a) \<times> state"

text \<open>\<^verbatim>\<open>als.getStore()\<close> and \<^verbatim>\<open>als.run(store, fn)\<close>: \<^verbatim>\<open>run\<close> makes \<^verbatim>\<open>store\<close> the
  associated value while \<^verbatim>\<open>fn\<close> runs and puts the previous association back when
  \<^verbatim>\<open>fn\<close> returns or throws.\<close>

definition getStore :: "state \<Rightarrow> nat option" where
  "getStore s = active s"

definition als_run :: "nat \<Rightarrow> 'a js \<Rightarrow> 'a js" where
  "als_run store fn s =
     (case fn (s\<lparr>active := Some store\<rparr>) of (res, t) \<Rightarrow> (res, t\<lparr>active := active s\<rparr>))"

text \<open>\<^verbatim>\<open>structuredClone(x)\<close> as a step of a function: the copy is allocated in the heap,
  or \<^verbatim>\<open>DataCloneError\<close> is thrown.\<close>

definition clone_js :: "nat \<Rightarrow> nat js" where
  "clone_js r s =
     (case structuredClone (heap s) r of
        Inl e \<Rightarrow> (Inl e, s)
      | Inr (h', r') \<Rightarrow> (Inr r', s\<lparr>heap := h'\<rparr>))"

subsection \<open>Merge strategy\<close>

text \<open>\<^verbatim>\<open>merge(prev, patch)\<close> takes two objects and returns an object; it may allocate.
  \<^verbatim>\<open>defaultMerge\<close> is \<^verbatim>\<open>Object.assign({}, prev, patch)\<close>, and
  \<^verbatim>\<open>options?.merge ?? defaultMerge\<close> selects the strategy of a context.\<close>

type_synonym merge_fn = "heap \<Rightarrow> nat \<Rightarrow> nat \<Rightarrow> heap \<times> nat"

definition defaultMerge :: merge_fn where
  "defaultMerge h prev patch = alloc h (assign (assign [] (cell h prev)) (cell h patch))"

record context_options =
  merge :: "merge_fn option"

definition merge_of :: "context_options option \<Rightarrow> merge_fn" where
  "merge_of options =
     (case options of
        None \<Rightarrow> defaultMerge
      | Some opt \<Rightarrow> (case merge opt of None \<Rightarrow> defaultMerge | Some m \<Rightarrow> m))"

subsection \<open>Operations\<close>

definition has :: "bool js" where
  "has s = (Inr (getStore s \<noteq> None), s)"

text \<open>\<^verbatim>\<open>get(key?)\<close>: the key is \<open>None\<close> for the call without argument.\<close>

definition get :: "string option \<Rightarrow> val js" where
  "get key s =
     (case getStore s of
        None \<Rightarrow> (Inr VUndef, s)
      | Some store \<Rightarrow>
          (case key of
             Some k \<Rightarrow> (Inr (field (heap s) store k), s)
           | None \<Rightarrow> (Inr (VRef store), s)))"

definition set_patch :: "merge_fn \<Rightarrow> nat \<Rightarrow> val js" where
  "set_patch mrg patch s =
     (case getStore s of
        None \<Rightarrow> (Inr VUndef, s)
      | Some store \<Rightarrow>
          (case mrg (heap s) store patch of (h1, next) \<Rightarrow>
             let h2 = h1[store := delete_keys (cell h1 store)];
                 h3 = h2[store := assign (cell h2 store) (cell h2 next)]
             in (Inr VUndef, s\<lparr>heap := h3\<rparr>)))"

definition run :: "nat \<Rightarrow> 'a js \<Rightarrow> 'a js" where
  "run initial fn s =
     (case clone_js initial s of
        (Inl e, t) \<Rightarrow> (Inl e, t)
      | (Inr r', t) \<Rightarrow> als_run r' fn t)"

definition withScope :: "merge_fn \<Rightarrow> nat \<Rightarrow> 'a js \<Rightarrow> 'a js" where
  "withScope mrg patch fn s =
     (case (case getStore s of Some c \<Rightarrow> (heap s, c) | None \<Rightarrow> alloc (heap s) []) of
        (h0, current) \<Rightarrow>
          (case mrg h0 current patch of (h1, next) \<Rightarrow>
             (case clone_js next (s\<lparr>heap := h1\<rparr>) of
                (Inl e, t) \<Rightarrow> (Inl e, t)
              | (Inr r', t) \<Rightarrow> als_run r' fn t)))"

text \<open>\<^verbatim>\<open>bind(fn, opts?)\<close> with \<^verbatim>\<open>opts?: { live?: boolean }\<close>. The store is captured when
  \<^verbatim>\<open>bind\<close> is called; \<^verbatim>\<open>getBoundStore\<close> is called by the wrapper, each time the wrapper is
  invoked.\<close>

record bind_opts =
  live :: "bool option"

definition opts_live :: "bind_opts option \<Rightarrow> bool" where
  "opts_live opts =
     (case opts of
        None \<Rightarrow> False
      | Some opt \<Rightarrow> (case live opt of None \<Rightarrow> False | Some b \<Rightarrow> b))"

definition getBoundStore :: "bind_opts option \<Rightarrow> nat \<Rightarrow> nat js" where
  "getBoundStore opts captured t =
     (if opts_live opts then (Inr captured, t) else clone_js captured t)"

definition bind :: "bind_opts option \<Rightarrow> (val list \<Rightarrow> 'a js) \<Rightarrow> state \<Rightarrow> (val list \<Rightarrow> 'a js)" where
  "bind opts fn s =
     (case getStore s of
        None \<Rightarrow> fn
      | Some captured \<Rightarrow>
          (\<lambda>args t.
             case getBoundStore opts captured t of
               (Inl e, t') \<Rightarrow> (Inl e, t')
             | (Inr st, t') \<Rightarrow> als_run st (fn args) t'))"

definition use :: "val js" where
  "use s =
     (case getStore s of
        None \<Rightarrow>
          (Inl (Error ''No active context. Make sure to wrap your code with ctx.run(...) or use the provided middleware.''), s)
      | Some store \<Rightarrow> (Inr (VRef store), s))"


subsection \<open>Event emitters\<close>

text \<open>
  An \<^verbatim>\<open>EventEmitter\<close> holds its registered listeners (event name, one-shot flag,
  function) and its registration methods, which \<^verbatim>\<open>bindEmitter\<close> replaces. The properties
  of \<^verbatim>\<open>bindEmitter\<close> below hold for every emitter, whatever its methods do; the standard
  emitter is used through \<^verbatim>\<open>on\<close>, which appends the listener. A
  registration method receives the state in which it is called, because the replaced
  methods call \<^verbatim>\<open>bind\<close>, which reads \<^verbatim>\<open>als.getStore()\<close>. The two prepend methods are
  optional, as the source tests for them.
\<close>

type_synonym 'a listener = "val list \<Rightarrow> 'a js"
type_synonym 'a entry = "string \<times> bool \<times> 'a listener"
type_synonym 'a registrar = "string \<Rightarrow> 'a listener \<Rightarrow> state \<Rightarrow> 'a entry list \<Rightarrow> 'a entry list"

record 'a emitter =
  listeners :: "'a entry list"
  addListener :: "'a registrar"
  on :: "'a registrar"
  once :: "'a registrar"
  prependListener :: "'a registrar option"
  prependOnceListener :: "'a registrar option"

definition append_entry :: "bool \<Rightarrow> 'a registrar" where
  "append_entry one_shot evt l s ls = ls @ [(evt, one_shot, l)]"

definition prepend_entry :: "bool \<Rightarrow> 'a registrar" where
  "prepend_entry one_shot evt l s ls = (evt, one_shot, l) # ls"

text \<open>\<^verbatim>\<open>new EventEmitter()\<close>\<close>

definition EventEmitter :: "'a emitter" where
  "EventEmitter =
     \<lparr> listeners = [],
       addListener = append_entry False,
       on = append_entry False,
       once = append_entry True,
       prependListener = Some (prepend_entry False),
       prependOnceListener = Some (prepend_entry True) \<rparr>"

text \<open>\<^verbatim>\<open>emitter.m(evt, listener)\<close> for a registration method \<^verbatim>\<open>m\<close> of the emitter.\<close>

definition register :: "'a registrar \<Rightarrow> string \<Rightarrow> 'a listener \<Rightarrow> state \<Rightarrow> 'a emitter \<Rightarrow> 'a emitter" where
  "register m evt l s em = em\<lparr>listeners := m evt l s (listeners em)\<rparr>"

text \<open>\<^verbatim>\<open>emitter.emit(evt, ...args)\<close> calls the listeners of the event in order and drops its
  one-shot listeners; a listener that throws ends the emission. The values the listeners
  return are collected, to state what each listener observed.\<close>

fun run_listeners :: "'a listener list \<Rightarrow> val list \<Rightarrow> 'a list js" where
  "run_listeners [] args s = (Inr [], s)"
| "run_listeners (l # ls) args s =
     (case l args s of
        (Inl e, t) \<Rightarrow> (Inl e, t)
      | (Inr v, t) \<Rightarrow>
          (case run_listeners ls args t of
             (Inl e, u) \<Rightarrow> (Inl e, u)
           | (Inr vs, u) \<Rightarrow> (Inr (v # vs), u)))"

definition emit :: "'a emitter \<Rightarrow> string \<Rightarrow> val list \<Rightarrow> state \<Rightarrow> ((exn + 'a list) \<times> state) \<times> 'a emitter" where
  "emit em evt args s =
     (run_listeners (map (\<lambda>(e, one_shot, l). l) (filter (\<lambda>(e, one_shot, l). e = evt) (listeners em))) args s,
      em\<lparr>listeners := filter (\<lambda>(e, one_shot, l). \<not> (e = evt \<and> one_shot)) (listeners em)\<rparr>)"

definition prebind :: "bind_opts option \<Rightarrow> 'a registrar \<Rightarrow> 'a registrar" where
  "prebind opts orig evt listener s = orig evt (bind opts listener s) s"

definition bindEmitter :: "bind_opts option \<Rightarrow> 'a emitter \<Rightarrow> 'a emitter" where
  "bindEmitter opts emitter =
     emitter\<lparr> addListener := prebind opts (addListener emitter),
              on := prebind opts (on emitter),
              once := prebind opts (once emitter),
              prependListener := map_option (prebind opts) (prependListener emitter),
              prependOnceListener := map_option (prebind opts) (prependOnceListener emitter) \<rparr>"

section \<open>Client code\<close>

text \<open>
  The functions that callers hand to \<^verbatim>\<open>run\<close>, \<^verbatim>\<open>with\<close> and \<^verbatim>\<open>bind\<close> are written in a small
  language whose statements are the calls of the context's interface: client code reaches
  the stores through the interface only (the object \<^verbatim>\<open>get()\<close> returns is a read-only
  view). Objects passed as \<^verbatim>\<open>initial\<close> or \<^verbatim>\<open>patch\<close> are given by reference.
  \<open>Bind x opts body\<close> is \<^verbatim>\<open>x = ctx.bind(() => body, opts)\<close> and \<open>Call x\<close> is \<^verbatim>\<open>x()\<close>.
  The environment maps the names to the functions they hold; a bound function sees the
  names that were defined when it was bound.
\<close>

datatype prog =
    Skip
  | Seq prog prog
  | Throw string
  | Has
  | Get "string option"
  | Use
  | Set nat
  | Run nat prog
  | With nat prog
  | Bind string "bind_opts option" prog
  | Call string

type_synonym env = "string \<Rightarrow> (val list \<Rightarrow> val js) option"

definition lift :: "env \<Rightarrow> val js \<Rightarrow> (val \<times> env) js" where
  "lift env m s = (case m s of (Inl e, t) \<Rightarrow> (Inl e, t) | (Inr v, t) \<Rightarrow> (Inr (v, env), t))"

definition result :: "(val \<times> env) js \<Rightarrow> val js" where
  "result m s = (case m s of (Inl e, t) \<Rightarrow> (Inl e, t) | (Inr (v, env), t) \<Rightarrow> (Inr v, t))"

primrec exec :: "merge_fn \<Rightarrow> prog \<Rightarrow> env \<Rightarrow> (val \<times> env) js" where
  "exec mrg Skip env = lift env (\<lambda>s. (Inr VUndef, s))"
| "exec mrg (Seq p q) env =
     (\<lambda>s. case exec mrg p env s of
             (Inl e, t) \<Rightarrow> (Inl e, t)
           | (Inr (v, env1), t) \<Rightarrow> exec mrg q env1 t)"
| "exec mrg (Throw msg) env = (\<lambda>s. (Inl (Error msg), s))"
| "exec mrg Has env =
     lift env (\<lambda>s. case has s of (Inl e, t) \<Rightarrow> (Inl e, t) | (Inr b, t) \<Rightarrow> (Inr (VBool b), t))"
| "exec mrg (Get key) env = lift env (get key)"
| "exec mrg Use env = lift env use"
| "exec mrg (Set patch) env = lift env (set_patch mrg patch)"
| "exec mrg (Run initial body) env = run initial (exec mrg body env)"
| "exec mrg (With patch body) env = withScope mrg patch (exec mrg body env)"
| "exec mrg (Bind x opts body) env =
     (\<lambda>s. (Inr (VUndef, env(x \<mapsto> bind opts (\<lambda>args. result (exec mrg body env)) s)), s))"
| "exec mrg (Call x) env =
     (\<lambda>s. case env x of
             None \<Rightarrow> (Inl (ReferenceError x), s)
           | Some f \<Rightarrow> lift env (f []) s)"

text \<open>The value a client program returns, or the error it throws.\<close>

definition outcome :: "(exn + val \<times> env) \<times> state \<Rightarrow> exn + val" where
  "outcome r = (case fst r of Inl e \<Rightarrow> Inl e | Inr (v, env) \<Rightarrow> Inr v)"

section \<open>Example stores\<close>

text \<open>The store \<^verbatim>\<open>{a: 1, b: {x: 1}}\<close> is active, and \<^verbatim>\<open>{b: {y: 2}}\<close> is the object at
  reference 2.\<close>

definition shallow_example :: state where
  "shallow_example =
     \<lparr> heap = [ [(''a'', VNum 1), (''b'', VRef 1)], [(''x'', VNum 1)],
                [(''b'', VRef 3)], [(''y'', VNum 2)] ],
       active = Some 0 \<rparr>"

section \<open>Invariants and frames\<close>

text \<open>A heap has no dangling reference.\<close>

definition wf_heap :: "heap \<Rightarrow> bool" where
  "wf_heap h = list_all (\<lambda>ob. list_all (\<lambda>q. q < length h) (orefs ob)) h"

text \<open>\<open>same_except W h h'\<close>: the heap \<open>h'\<close> has every object of \<open>h\<close>, unchanged unless its
  reference is in \<open>W\<close>. A merge strategy is pure when it only allocates.\<close>

definition same_except :: "nat set \<Rightarrow> heap \<Rightarrow> heap \<Rightarrow> bool" where
  "same_except W h h' \<longleftrightarrow> length h \<le> length h' \<and> (\<forall>i<length h. i \<notin> W \<longrightarrow> h' ! i = h ! i)"

definition merge_pure :: "merge_fn \<Rightarrow> bool" where
  "merge_pure mrg \<longleftrightarrow> (\<forall>h a b. same_except {} h (fst (mrg h a b)))"

text \<open>\<open>frame W s t\<close>: from state \<open>s\<close> to state \<open>t\<close> the active store is the same object and
  no object outside \<open>W\<close> other than the active store has changed. A function writes
  within \<open>W\<close> when every call of it satisfies the frame, and an environment is fine for
  \<open>W\<close> when all its functions are: \<open>W\<close> bounds the stores that the functions in scope
  are live-bound to.\<close>

definition frame :: "nat set \<Rightarrow> state \<Rightarrow> state \<Rightarrow> bool" where
  "frame W s t \<longleftrightarrow>
     active t = active s \<and> same_except (W \<union> {r. active s = Some r}) (heap s) (heap t)"

definition writes_within :: "nat set \<Rightarrow> 'a js \<Rightarrow> bool" where
  "writes_within W f \<longleftrightarrow> (\<forall>s. frame W s (snd (f s)))"

definition env_ok :: "nat set \<Rightarrow> env \<Rightarrow> bool" where
  "env_ok W env \<longleftrightarrow> (\<forall>x f args. env x = Some f \<longrightarrow> writes_within W (f args))"

section \<open>Example programs\<close>

text \<open>\<^verbatim>\<open>b = ctx.bind(() => ctx.set(p), {live: true})\<close> for the object \<open>p\<close>, bound in state \<open>s\<close>.\<close>

definition live_setter :: "merge_fn \<Rightarrow> nat \<Rightarrow> state \<Rightarrow> env" where
  "live_setter mrg p s =
     Map.empty(''b'' \<mapsto> bind (Some \<lparr>live = Some True\<rparr>) (\<lambda>args. result (exec mrg (Set p) Map.empty)) s)"

text \<open>What a client program returned, unfolded to depth \<open>m\<close> in the heap it left.\<close>

definition observed :: "nat \<Rightarrow> (exn + val \<times> env) \<times> state \<Rightarrow> exn + tval" where
  "observed m r = (case fst r of Inl e \<Rightarrow> Inl e | Inr (v, env) \<Rightarrow> Inr (obs m (heap (snd r)) v))"

section \<open>Objects\<close>

lemma map_of_insert_key:
  assumes "k \<notin> fst ` set ob"
  shows "map_of (insert_key k v ob) = (map_of ob)(k \<mapsto> v)"
proof (cases "index_of k")
  case None
  have "map_of ob k = None"
    using assms by (simp add: map_of_eq_None_iff)
  then show ?thesis
    by (auto simp: insert_key_def None fun_eq_iff map_add_def split: option.splits)
next
  case (Some n)
  let ?P = "before_index n"
  have ob: "ob = takeWhile ?P ob @ dropWhile ?P ob" by simp
  have kt: "map_of (takeWhile ?P ob) k = None" and kd: "map_of (dropWhile ?P ob) k = None"
    using assms by (auto simp: map_of_eq_None_iff dest: set_takeWhileD set_dropWhileD)
  have m: "map_of ob = map_of (dropWhile ?P ob) ++ map_of (takeWhile ?P ob)"
    by (metis map_of_append takeWhile_dropWhile_id)
  have "map_of (takeWhile ?P ob @ (k, v) # dropWhile ?P ob)
          = (map_of (dropWhile ?P ob) ++ map_of (takeWhile ?P ob))(k \<mapsto> v)"
    using kt kd by (auto simp: fun_eq_iff map_add_def split: option.splits)
  then show ?thesis
    by (simp add: insert_key_def Some m[symmetric])
qed

lemma keys_insert_key: "set (map fst (insert_key k v ob)) = insert k (set (map fst ob))"
proof -
  have "set (takeWhile P ob) \<union> set (dropWhile P ob) = set ob" for P
    by (metis set_append takeWhile_dropWhile_id)
  then show ?thesis
    by (auto simp: insert_key_def image_Un[symmetric] split: option.splits)
qed

lemma distinct_insert_key:
  assumes "distinct (map fst ob)" and "k \<notin> fst ` set ob"
  shows "distinct (map fst (insert_key k v ob))"
proof -
  have "distinct (map fst (takeWhile P ob) @ map fst (dropWhile P ob))" for P
    using assms(1) by (metis map_append takeWhile_dropWhile_id)
  moreover have "k \<notin> fst ` set (takeWhile P ob)" "k \<notin> fst ` set (dropWhile P ob)" for P
    using assms(2) by (auto dest: set_takeWhileD set_dropWhileD)
  ultimately show ?thesis
    using assms by (auto simp: insert_key_def split: option.splits)
qed

lemma map_of_put:
  "k \<noteq> ''__proto__'' \<or> k \<in> fst ` set ob \<Longrightarrow> map_of (put k v ob) = (map_of ob)(k \<mapsto> v)"
  by (auto simp: put_def update_conv' map_of_insert_key)

lemma put_proto_absent: "''__proto__'' \<notin> fst ` set ob \<Longrightarrow> put ''__proto__'' v ob = ob"
  by (simp add: put_def)

lemma keys_put: "fst ` set (put k v ob) \<subseteq> insert k (fst ` set ob)"
  using keys_insert_key[of k v ob] by (auto simp: put_def dom_update)

lemma proto_put:
  "''__proto__'' \<notin> fst ` set ob \<Longrightarrow> ''__proto__'' \<notin> fst ` set (put k v ob)"
proof (cases "k = ''__proto__''")
  case True
  assume "''__proto__'' \<notin> fst ` set ob"
  then show ?thesis by (simp add: True put_proto_absent)
next
  case False
  assume "''__proto__'' \<notin> fst ` set ob"
  then show ?thesis using keys_put[of k v ob] False by blast
qed

lemma distinct_put: "distinct (map fst ob) \<Longrightarrow> distinct (map fst (put k v ob))"
  by (simp add: put_def distinct_update distinct_insert_key)

lemma assign_Cons: "assign tgt ((k, v) # src) = assign (put k v tgt) src"
  by (simp add: assign_def)

lemma assign_Nil: "assign tgt [] = tgt"
  by (simp add: assign_def)

lemma distinct_assign: "distinct (map fst tgt) \<Longrightarrow> distinct (map fst (assign tgt src))"
  by (induction src arbitrary: tgt) (auto simp: assign_Nil assign_Cons distinct_put)

lemma proto_assign:
  "''__proto__'' \<notin> fst ` set tgt \<Longrightarrow> ''__proto__'' \<notin> fst ` set (assign tgt src)"
proof (induction src arbitrary: tgt)
  case Nil
  then show ?case by (simp add: assign_Nil)
next
  case (Cons p src)
  obtain k v where p: "p = (k, v)" by (cases p)
  show ?case
    unfolding p assign_Cons by (rule Cons.IH[OF proto_put[OF Cons.prems]])
qed

lemma map_of_assign:
  "distinct (map fst src) \<Longrightarrow> ''__proto__'' \<notin> fst ` set src
     \<Longrightarrow> map_of (assign tgt src) = map_of tgt ++ map_of src"
proof (induction src arbitrary: tgt)
  case Nil
  show ?case by (simp add: assign_Nil)
next
  case (Cons p src)
  obtain k v where p: "p = (k, v)" by (cases p)
  have k: "k \<noteq> ''__proto__''" "map_of src k = None"
    using Cons.prems by (auto simp: p map_of_eq_None_iff)
  have "map_of (assign (put k v tgt) src) = map_of (put k v tgt) ++ map_of src"
    using Cons.prems by (intro Cons.IH) (auto simp: p)
  then show ?case
    using k by (auto simp: p assign_Cons map_of_put fun_eq_iff map_add_def split: option.splits)
qed

lemma map_of_assign_Nil:
  "distinct (map fst src) \<Longrightarrow> ''__proto__'' \<notin> fst ` set src \<Longrightarrow> map_of (assign [] src) = map_of src"
  by (simp add: map_of_assign)

lemma fold_delete_Nil: "fold AList.delete ks [] = []"
  by (induction ks) simp_all

lemma fold_delete_covers: "fst ` set ob \<subseteq> set ks \<Longrightarrow> fold AList.delete ks ob = []"
proof (induction ks arbitrary: ob)
  case Nil
  then show ?case by simp
next
  case (Cons k ks)
  have "fst ` set (AList.delete k ob) \<subseteq> set ks"
    using Cons.prems by (auto simp: AList.delete_eq)
  then show ?case using Cons.IH by simp
qed

lemma delete_keys_Nil: "delete_keys ob = []"
  unfolding delete_keys_def by (rule fold_delete_covers) simp

lemma cell_in: "r < length h \<Longrightarrow> cell h r = h ! r"
  by (simp add: cell_def)

lemma set_patch_default:
  assumes "active s = Some r" and "r < length (heap s)"
  shows "set_patch defaultMerge patch s =
           (Inr VUndef, s\<lparr>heap := (heap s @ [assign (assign [] (cell (heap s) r)) (cell (heap s) patch)])
               [r := assign [] (assign (assign [] (cell (heap s) r)) (cell (heap s) patch))]\<rparr>)"
  using assms
  by (simp add: set_patch_def getStore_def defaultMerge_def alloc_def Let_def delete_keys_Nil
      cell_def nth_append)


text \<open>
  C4 (amended). Under the default merge, for a store and a patch that have no own key
  \<^verbatim>\<open>__proto__\<close>, \<^verbatim>\<open>set(patch)\<close> in an active scope leaves the store with the fields of a
  shallow overwrite: a key of the patch has the patch's value (a nested object is
  replaced by reference, not merged) and every other key keeps its value.
\<close>

theorem set_default_shallow:
  assumes "active s = Some r" and "r < length (heap s)"
    and "distinct (map fst (cell (heap s) r))"
    and "distinct (map fst (cell (heap s) patch))"
    and "''__proto__'' \<notin> fst ` set (cell (heap s) r)"
    and "''__proto__'' \<notin> fst ` set (cell (heap s) patch)"
  shows "fst (set_patch (merge_of None) patch s) = Inr VUndef
       \<and> active (snd (set_patch (merge_of None) patch s)) = Some r
       \<and> map_of (cell (heap (snd (set_patch (merge_of None) patch s))) r)
           = map_of (cell (heap s) r) ++ map_of (cell (heap s) patch)"
proof -
  let ?prev = "cell (heap s) r" and ?p = "cell (heap s) patch"
  let ?next = "assign (assign [] ?prev) ?p"
  have d: "distinct (map fst ?next)"
    by (simp add: distinct_assign)
  have n: "''__proto__'' \<notin> fst ` set ?next"
    by (intro proto_assign) simp
  have "map_of (assign [] ?next) = map_of ?next"
    by (rule map_of_assign_Nil[OF d n])
  also have "\<dots> = map_of (assign [] ?prev) ++ map_of ?p"
    by (rule map_of_assign[OF assms(4,6)])
  also have "\<dots> = map_of ?prev ++ map_of ?p"
    by (simp add: map_of_assign_Nil[OF assms(3,5)])
  finally have m: "map_of (assign [] ?next) = map_of ?prev ++ map_of ?p" .
  have c: "\<And>h x. r < length h \<Longrightarrow> cell (h[r := x]) r = x"
    by (simp add: cell_def)
  show ?thesis
    using assms(1,2)
    by (simp add: merge_of_def set_patch_default m c)
qed

text \<open>The example: \<^verbatim>\<open>{a: 1, b: {x: 1}}\<close> after \<^verbatim>\<open>set({b: {y: 2}})\<close> is
  \<^verbatim>\<open>{a: 1, b: {y: 2}}\<close>.\<close>

theorem set_default_shallow_witness:
  "active shallow_example = Some 0 \<and> 0 < length (heap shallow_example)
   \<and> distinct (map fst (cell (heap shallow_example) 0))
   \<and> distinct (map fst (cell (heap shallow_example) 2))
   \<and> ''__proto__'' \<notin> fst ` set (cell (heap shallow_example) 0)
   \<and> ''__proto__'' \<notin> fst ` set (cell (heap shallow_example) 2)
   \<and> map_of (cell (heap (snd (set_patch (merge_of None) 2 shallow_example))) 0)
        = map_of [(''a'', VNum 1), (''b'', VRef 3)]
   \<and> obs (Suc (Suc 0)) (heap (snd (set_patch (merge_of None) 2 shallow_example))) (VRef 0)
        = TObj [(''a'', TNum 1), (''b'', TObj [(''y'', TNum 2)])]"
proof -
  have pre: "active shallow_example = Some 0" "0 < length (heap shallow_example)"
    "distinct (map fst (cell (heap shallow_example) 0))"
    "distinct (map fst (cell (heap shallow_example) 2))"
    "''__proto__'' \<notin> fst ` set (cell (heap shallow_example) 0)"
    "''__proto__'' \<notin> fst ` set (cell (heap shallow_example) 2)"
    by (simp_all add: shallow_example_def cell_def)
  have st: "map_of (cell (heap (snd (set_patch (merge_of None) 2 shallow_example))) 0)
        = map_of [(''a'', VNum 1), (''b'', VRef 3)]"
    using set_default_shallow[OF pre]
    by (simp add: shallow_example_def cell_def fun_eq_iff)
  have len: "heap (snd (set_patch (merge_of None) 2 shallow_example))
      = [ [(''a'', VNum 1), (''b'', VRef 3)], [(''x'', VNum 1)],
                [(''b'', VRef 3)], [(''y'', VNum 2)],  [(''a'', VNum 1), (''b'', VRef 3)] ]"
    by (simp add: set_patch_def getStore_def defaultMerge_def alloc_def delete_keys_def
        merge_of_def shallow_example_def cell_def assign_def put_def insert_key_def
        index_of_def)
  show ?thesis
    using pre st by (simp add: len)
qed

text \<open>
  C4 as stated fails: the store is \<^verbatim>\<open>{a: 1}\<close> and the patch has the own field
  \<^verbatim>\<open>__proto__\<close> with value 5 (as \<^verbatim>\<open>JSON.parse\<close> produces). \<^verbatim>\<open>Object.assign\<close> writes the key
  through the accessor inherited from \<^verbatim>\<open>Object.prototype\<close>, so after \<^verbatim>\<open>set(patch)\<close> the store
  is still \<^verbatim>\<open>{a: 1}\<close> and \<^verbatim>\<open>get('__proto__')\<close> is not 5.
\<close>

theorem set_drops_proto_key:
  "map_of (cell (heap \<lparr>heap = [ [(''a'', VNum 1)], [(''__proto__'', VNum 5)] ], active = Some 0\<rparr>) 1)
       ''__proto__'' = Some (VNum 5)
   \<and> cell (heap (snd (set_patch (merge_of None) 1
        \<lparr>heap = [ [(''a'', VNum 1)], [(''__proto__'', VNum 5)] ], active = Some 0\<rparr>))) 0
       = [(''a'', VNum 1)]
   \<and> fst (get (Some ''__proto__'') (snd (set_patch (merge_of None) 1
        \<lparr>heap = [ [(''a'', VNum 1)], [(''__proto__'', VNum 5)] ], active = Some 0\<rparr>)))
       = Inr (VBuiltin ''Object.prototype'')"
  by (simp add: set_patch_def getStore_def defaultMerge_def alloc_def delete_keys_def
      merge_of_def cell_def assign_def put_def insert_key_def index_of_def get_def field_def
      object_prototype_def)

section \<open>Unfolding rules for evaluation\<close>

lemmas engine_defs =
  getStore_def als_run_def clone_js_def defaultMerge_def merge_of_def has_def get_def
  set_patch_def run_def withScope_def opts_live_def getBoundStore_def bind_def use_def
  lift_def result_def outcome_def

lemmas heap_defs =
  cell_def alloc_def field_def assign_def delete_keys_def put_def insert_key_def index_of_def
  before_index_def digit_val_def object_prototype_def

lemmas clone_defs =
  structuredClone_def cloneable_def idx_def copy_cell_def orefs_def collect.simps

section \<open>Behaviour outside a scope, and the strict accessor\<close>

text \<open>
  C7 (amended). When no scope is active, \<^verbatim>\<open>has()\<close> returns false, \<^verbatim>\<open>get()\<close> and \<^verbatim>\<open>get(key)\<close> return
  \<^verbatim>\<open>undefined\<close>, \<^verbatim>\<open>set(patch)\<close> returns without changing the state, and \<^verbatim>\<open>bind(fn)\<close>
  returns \<^verbatim>\<open>fn\<close> itself; none of these four throws.
\<close>

theorem outside_scope_degrades:
  assumes "active s = None"
  shows "has s = (Inr False, s)
       \<and> get None s = (Inr VUndef, s)
       \<and> get (Some k) s = (Inr VUndef, s)
       \<and> set_patch mrg patch s = (Inr VUndef, s)
       \<and> bind opts fn s = fn"
  using assms by (simp add: has_def get_def set_patch_def bind_def getStore_def)

theorem outside_scope_degrades_witness:
  "active \<lparr>heap = [ [(''x'', VNum 1)] ], active = None\<rparr> = None
   \<and> has \<lparr>heap = [ [(''x'', VNum 1)] ], active = None\<rparr>
        = (Inr False, \<lparr>heap = [ [(''x'', VNum 1)] ], active = None\<rparr>)
   \<and> get (Some ''x'') \<lparr>heap = [ [(''x'', VNum 1)] ], active = None\<rparr>
        = (Inr VUndef, \<lparr>heap = [ [(''x'', VNum 1)] ], active = None\<rparr>)
   \<and> set_patch defaultMerge 0 \<lparr>heap = [ [(''x'', VNum 1)] ], active = None\<rparr>
        = (Inr VUndef, \<lparr>heap = [ [(''x'', VNum 1)] ], active = None\<rparr>)
   \<and> bind None (\<lambda>args. get (Some ''x'')) \<lparr>heap = [ [(''x'', VNum 1)] ], active = None\<rparr>
        = (\<lambda>args. get (Some ''x''))"
  using outside_scope_degrades[of "\<lparr>heap = [ [(''x'', VNum 1)] ], active = None\<rparr>" "''x''"
      defaultMerge 0 None "\<lambda>args. get (Some ''x'')"]
  by simp

text \<open>
  Of the operations other than \<^verbatim>\<open>use\<close>, \<^verbatim>\<open>run\<close> and \<^verbatim>\<open>with\<close> are not total outside a
  scope: with no scope active, \<^verbatim>\<open>with({log: f}, fn)\<close> for a function \<^verbatim>\<open>f\<close> throws
  \<^verbatim>\<open>DataCloneError\<close>, although \<^verbatim>\<open>fn\<close> never throws.
\<close>

theorem with_fails_outside_scope:
  "active \<lparr>heap = [ [(''log'', VFun 0)] ], active = None\<rparr> = None
   \<and> (\<forall>t. fst ((\<lambda>s. (Inr VUndef, s)) t) = (Inr VUndef :: exn + val))
   \<and> fst (withScope (merge_of None) 0 (\<lambda>s. (Inr VUndef, s))
        \<lparr>heap = [ [(''log'', VFun 0)] ], active = None\<rparr>) = (Inl DataCloneError :: exn + val)"
  by (simp add: withScope_def getStore_def merge_of_def defaultMerge_def clone_js_def heap_defs
      clone_defs)




section \<open>Bindings\<close>

text \<open>
  C1. A function that reads \<^verbatim>\<open>x\<close> is bound without the live option in a scope whose
  store is \<^verbatim>\<open>{x: 1}\<close>, the scope then runs \<^verbatim>\<open>set({x: 2})\<close>, and the bound function is
  invoked after the scope has ended. A snapshot taken at bind time would make it read 1,
  the value \<^verbatim>\<open>get('x')\<close> has when \<^verbatim>\<open>bind\<close> is called. In the code \<^verbatim>\<open>getBoundStore\<close> runs
  \<^verbatim>\<open>structuredClone(captured)\<close> when the wrapper is invoked, so the bound function reads 2,
  with the default options and with \<^verbatim>\<open>{live: false}\<close> alike.
\<close>

theorem bind_default_reads_at_invocation:
  "outcome (exec (merge_of None)
      (Seq (Run 0 (Seq (Bind ''bound'' None (Get (Some ''x''))) (Set 1))) (Call ''bound''))
      Map.empty \<lparr>heap = [ [(''x'', VNum 1)], [(''x'', VNum 2)] ], active = None\<rparr>)
    = Inr (VNum 2)
   \<and> outcome (exec (merge_of None)
      (Seq (Run 0 (Seq (Bind ''bound'' (Some \<lparr>live = Some False\<rparr>) (Get (Some ''x''))) (Set 1)))
           (Call ''bound''))
      Map.empty \<lparr>heap = [ [(''x'', VNum 1)], [(''x'', VNum 2)] ], active = None\<rparr>)
    = Inr (VNum 2)
   \<and> outcome (exec (merge_of None)
      (Run 0 (Seq (Bind ''bound'' None (Get (Some ''x''))) (Get (Some ''x''))))
      Map.empty \<lparr>heap = [ [(''x'', VNum 1)], [(''x'', VNum 2)] ], active = None\<rparr>)
    = Inr (VNum 1)"
  by (simp add: engine_defs heap_defs clone_defs)


section \<open>Failures\<close>

lemma structuredClone_error: "structuredClone h r = Inl e \<Longrightarrow> e = DataCloneError"
  by (simp add: structuredClone_def Let_def split: if_splits)

lemma clone_js_error: "fst (clone_js r s) = Inl e \<Longrightarrow> e = DataCloneError"
  by (auto simp: clone_js_def split: sum.splits dest: structuredClone_error)

lemma als_run_error: "fst (als_run st fn s) = Inl e \<Longrightarrow> \<exists>t. fst (fn t) = Inl e"
  by (auto simp: als_run_def split: prod.splits) (metis fst_conv)

lemma run_error:
  "fst (run initial fn s) = Inl e \<Longrightarrow> e = DataCloneError \<or> (\<exists>t. fst (fn t) = Inl e)"
  unfolding run_def
  by (auto split: prod.splits sum.splits dest!: als_run_error)
     (metis clone_js_error fst_conv)

lemma withScope_error:
  "fst (withScope mrg patch fn s) = Inl e \<Longrightarrow> e = DataCloneError \<or> (\<exists>t. fst (fn t) = Inl e)"
  unfolding withScope_def
  by (auto split: prod.splits sum.splits option.splits dest!: als_run_error)
     (metis clone_js_error fst_conv)+

lemma bind_error:
  "fst (bind opts g s args u) = Inl e \<Longrightarrow> e = DataCloneError \<or> (\<exists>t. fst (g args t) = Inl e)"
  unfolding bind_def getBoundStore_def
  by (auto split: prod.splits sum.splits option.splits if_splits dest!: als_run_error)
     (metis clone_js_error fst_conv)+

text \<open>
  C6 (amended). \<^verbatim>\<open>use()\<close> outside a scope throws the error with the message that tells
  the caller to wrap the code in \<^verbatim>\<open>ctx.run\<close>; inside a scope it returns the active store.
  \<^verbatim>\<open>has\<close>, \<^verbatim>\<open>get\<close> and \<^verbatim>\<open>set\<close> never throw. \<^verbatim>\<open>run\<close>, \<^verbatim>\<open>with\<close> and a bound function
  throw only what the function handed to them throws, or \<^verbatim>\<open>DataCloneError\<close> when the store
  they copy cannot be cloned.
\<close>

theorem use_strict:
  "(active s = None \<longrightarrow>
      use s = (Inl (Error ''No active context. Make sure to wrap your code with ctx.run(...) or use the provided middleware.''), s))
   \<and> (active s = Some r \<longrightarrow> use s = (Inr (VRef r), s))
   \<and> (\<exists>b. has s = (Inr b, s))
   \<and> (\<exists>v. get key s = (Inr v, s))
   \<and> (\<exists>v t. set_patch mrg patch s = (Inr v, t))
   \<and> (fst (run initial fn s) = Inl e \<longrightarrow> e = DataCloneError \<or> (\<exists>t. fst (fn t) = Inl e))
   \<and> (fst (withScope mrg patch fn s) = Inl e \<longrightarrow> e = DataCloneError \<or> (\<exists>t. fst (fn t) = Inl e))
   \<and> (fst (bind opts g s args u) = Inl e \<longrightarrow> e = DataCloneError \<or> (\<exists>t. fst (g args t) = Inl e))"
proof -
  have "\<exists>v t. set_patch mrg patch s = (Inr v, t)"
    by (simp add: set_patch_def Let_def split: option.splits prod.splits)
  moreover have "\<exists>v. get key s = (Inr v, s)"
    by (simp add: get_def split: option.splits)
  ultimately show ?thesis
    using run_error[of initial fn s e] withScope_error[of mrg patch fn s e]
      bind_error[of opts g s args u e]
    by (simp add: use_def has_def getStore_def)
qed

text \<open>
  C6 as stated fails: \<^verbatim>\<open>run({log: f}, fn)\<close> with a function \<^verbatim>\<open>f\<close> throws
  \<^verbatim>\<open>DataCloneError\<close> before \<^verbatim>\<open>fn\<close> is called, although \<^verbatim>\<open>fn\<close> never throws.
\<close>

theorem run_fails_on_function_field:
  "(\<forall>t. fst ((\<lambda>s. (Inr VUndef, s)) t) = (Inr VUndef :: exn + val))
   \<and> run 0 (\<lambda>s. (Inr VUndef, s)) \<lparr>heap = [ [(''log'', VFun 0)] ], active = None\<rparr>
       = (Inl DataCloneError, \<lparr>heap = [ [(''log'', VFun 0)] ], active = None\<rparr>)"
  by (simp add: run_def clone_js_def clone_defs)

theorem use_strict_witness:
  "active \<lparr>heap = [ [(''log'', VFun 0)] ], active = None\<rparr> = None
   \<and> fst (use \<lparr>heap = [ [(''log'', VFun 0)] ], active = None\<rparr>)
       = Inl (Error ''No active context. Make sure to wrap your code with ctx.run(...) or use the provided middleware.'')
   \<and> active \<lparr>heap = [ [(''log'', VFun 0)] ], active = Some 0\<rparr> = Some 0
   \<and> fst (use \<lparr>heap = [ [(''log'', VFun 0)] ], active = Some 0\<rparr>) = Inr (VRef 0)
   \<and> fst (run 0 (\<lambda>s. (Inr VUndef, s)) \<lparr>heap = [ [(''log'', VFun 0)] ], active = None\<rparr>)
       = Inl DataCloneError"
proof -
  have a: "fst (use \<lparr>heap = [ [(''log'', VFun 0)] ], active = None\<rparr>)
       = Inl (Error ''No active context. Make sure to wrap your code with ctx.run(...) or use the provided middleware.'')"
    using use_strict[where s = "\<lparr>heap = [ [(''log'', VFun 0)] ], active = None\<rparr>", THEN conjunct1]
    by simp
  have b: "fst (use \<lparr>heap = [ [(''log'', VFun 0)] ], active = Some 0\<rparr>) = Inr (VRef 0)"
    using use_strict[where s = "\<lparr>heap = [ [(''log'', VFun 0)] ], active = Some 0\<rparr>" and r = 0,
        THEN conjunct2, THEN conjunct1]
    by simp
  have c: "fst (run 0 (\<lambda>s. (Inr VUndef, s)) \<lparr>heap = [ [(''log'', VFun 0)] ], active = None\<rparr>)
       = (Inl DataCloneError :: exn + val)"
    by (simp add: run_def clone_js_def clone_defs)
  show ?thesis
    using a b c by simp
qed

section \<open>The deep copy\<close>

lemma idx_less: "q \<in> set rs \<Longrightarrow> idx rs q < length rs"
  unfolding idx_def by (induction rs) auto

lemma idx_nth: "q \<in> set rs \<Longrightarrow> rs ! idx rs q = q"
  unfolding idx_def by (induction rs) auto

lemma idx_notin: "q \<notin> set rs \<Longrightarrow> idx rs q = length rs"
  unfolding idx_def by (induction rs) auto

lemma collect_distinct: "distinct vis \<Longrightarrow> distinct (collect h todo vis)"
  by (induction h todo vis rule: collect.induct) (simp_all add: collect.simps)

lemma collect_bound:
  "set vis \<subseteq> {..<length h} \<Longrightarrow> set (collect h todo vis) \<subseteq> {..<length h}"
  by (induction h todo vis rule: collect.induct) (simp_all add: collect.simps)

lemma collect_mono: "set vis \<subseteq> set (collect h todo vis)"
  by (induction h todo vis rule: collect.induct) (auto simp: collect.simps)

lemma collect_todo:
  "t \<in> set todo \<Longrightarrow> t < length h \<Longrightarrow> t \<in> set (collect h todo vis)"
proof (induction h todo vis rule: collect.induct)
  case (1 h vis)
  then show ?case by simp
next
  case (2 h r todo vis)
  show ?case
  proof (cases "r \<in> set vis \<or> length h \<le> r")
    case True
    then show ?thesis
      using 2 collect_mono[of vis h todo] by (auto simp: collect.simps)
  next
    case False
    have "set (vis @ [r]) \<subseteq> set (collect h (orefs (h ! r) @ todo) (vis @ [r]))"
      by (rule collect_mono)
    then show ?thesis
      using 2 False by (auto simp: collect.simps)
  qed
qed

lemma collect_closed:
  assumes "\<forall>q\<in>set vis. \<forall>q'\<in>set (orefs (h ! q)). q' < length h \<longrightarrow> q' \<in> set vis \<union> set todo"
  shows "\<forall>q\<in>set (collect h todo vis). \<forall>q'\<in>set (orefs (h ! q)).
           q' < length h \<longrightarrow> q' \<in> set (collect h todo vis)"
  using assms
proof (induction h todo vis rule: collect.induct)
  case (1 h vis)
  then show ?case by (simp add: collect.simps)
next
  case (2 h r todo vis)
  show ?case
  proof (cases "r \<in> set vis \<or> length h \<le> r")
    case True
    have "\<forall>q\<in>set vis. \<forall>q'\<in>set (orefs (h ! q)). q' < length h \<longrightarrow> q' \<in> set vis \<union> set todo"
    proof (intro ballI impI)
      fix q q'
      assume a: "q \<in> set vis" "q' \<in> set (orefs (h ! q))" "q' < length h"
      then have "q' \<in> set vis \<union> set (r # todo)"
        using "2.prems" by blast
      moreover have "q' = r \<longrightarrow> r \<in> set vis"
        using True a(3) by auto
      ultimately show "q' \<in> set vis \<union> set todo"
        by auto
    qed
    then show ?thesis
      using "2.IH"(1)[OF True] True by (simp add: collect.simps)
  next
    case False
    have "\<forall>q\<in>set (vis @ [r]). \<forall>q'\<in>set (orefs (h ! q)).
            q' < length h \<longrightarrow> q' \<in> set (vis @ [r]) \<union> set (orefs (h ! r) @ todo)"
      using "2.prems" by auto
    then show ?thesis
      using "2.IH"(2)[OF False] False by (simp add: collect.simps)
  qed
qed


lemma structuredClone_InrD:
  assumes "structuredClone h r = Inr (h', r')"
  shows "h' = h @ map (copy_cell h (collect h [r] [])) (collect h [r] [])"
    and "r' = length h + idx (collect h [r] []) r"
  using assms by (simp_all add: structuredClone_def Let_def split: if_splits)

lemma reach_props:
  fixes h r
  defines "rs \<equiv> collect h [r] []"
  shows "distinct rs" and "set rs \<subseteq> {..<length h}"
    and "r < length h \<Longrightarrow> r \<in> set rs"
    and "\<forall>q\<in>set rs. \<forall>q'\<in>set (orefs (h ! q)). q' < length h \<longrightarrow> q' \<in> set rs"
proof -
  show "distinct rs" unfolding rs_def by (rule collect_distinct) simp
  show "set rs \<subseteq> {..<length h}" unfolding rs_def by (rule collect_bound) simp
  show "r < length h \<Longrightarrow> r \<in> set rs" unfolding rs_def by (rule collect_todo) simp_all
  show "\<forall>q\<in>set rs. \<forall>q'\<in>set (orefs (h ! q)). q' < length h \<longrightarrow> q' \<in> set rs"
    unfolding rs_def by (rule collect_closed) simp
qed

lemma vrefs_iff: "q \<in> set (vrefs v) \<longleftrightarrow> v = VRef q"
  by (cases v) auto

lemma orefs_iff: "q \<in> set (orefs ob) \<longleftrightarrow> (\<exists>k. (k, VRef q) \<in> set ob)"
  unfolding orefs_def by (auto simp: vrefs_iff)

lemma copy_nth:
  assumes "q \<in> set rs"
  shows "(h @ map (copy_cell h rs) rs) ! (length h + idx rs q) = copy_cell h rs q"
  using idx_less[OF assms] idx_nth[OF assms] by (simp add: nth_append)

lemma obs_copy:
  fixes h rs
  defines "h' \<equiv> h @ map (copy_cell h rs) rs"
  assumes bound: "set rs \<subseteq> {..<length h}"
    and closed: "\<forall>q\<in>set rs. \<forall>q'\<in>set (orefs (h ! q)). q' < length h \<longrightarrow> q' \<in> set rs"
  shows "(\<forall>q. v = VRef q \<longrightarrow> q < length h \<longrightarrow> q \<in> set rs)
           \<Longrightarrow> obs m h' (rn rs (length h) v) = obs m h v"
proof (induction m arbitrary: v)
  case 0
  then show ?case by (cases v) simp_all
next
  case (Suc m)
  show ?case
  proof (cases v)
    case (VRef q)
    show ?thesis
    proof (cases "q < length h")
      case True
      then have q: "q \<in> set rs" using Suc.prems VRef by simp
      have len: "length h + idx rs q < length h'"
        using idx_less[OF q] by (simp add: h'_def)
      have nth: "h' ! (length h + idx rs q) = copy_cell h rs q"
        unfolding h'_def by (rule copy_nth[OF q])
      have each: "obs m h' (rn rs (length h) w) = obs m h w" if "(k, w) \<in> set (h ! q)" for k w
      proof (rule Suc.IH, intro allI impI)
        fix q'
        assume w: "w = VRef q'" and lt: "q' < length h"
        have "q' \<in> set (orefs (h ! q))"
          using that w by (auto simp: orefs_iff)
        then show "q' \<in> set rs"
          using closed q lt by blast
      qed
      have "map (\<lambda>(k, v). (k, obs m h' v)) (copy_cell h rs q)
              = map (\<lambda>(k, v). (k, obs m h v)) (h ! q)"
        unfolding copy_cell_def using each by (induction "h ! q") auto
      then show ?thesis
        using True len nth by (simp add: VRef)
    next
      case False
      then have "q \<notin> set rs" using bound by auto
      then have "length h + idx rs q = length h'"
        by (simp add: idx_notin h'_def)
      then show ?thesis using False by (simp add: VRef)
    qed
  qed simp_all
qed

lemma clone_obs:
  assumes "structuredClone h r = Inr (h', r')"
  shows "obs m h' (VRef r') = obs m h (VRef r)"
proof -
  let ?rs = "collect h [r] []"
  have "obs m (h @ map (copy_cell h ?rs) ?rs) (rn ?rs (length h) (VRef r)) = obs m h (VRef r)"
    by (rule obs_copy) (use reach_props[where h = h and r = r] in auto)
  then show ?thesis
    using structuredClone_InrD[OF assms] by simp
qed

section \<open>In-place update and live bindings\<close>

lemma set_patch_active:
  assumes "active s = Some r" and "r < length (heap s)"
    and "mrg (heap s) r patch = (h1, nx)" and "nx \<noteq> r" and "length (heap s) \<le> length h1"
  shows "set_patch mrg patch s = (Inr VUndef, s\<lparr>heap := h1[r := assign [] (cell h1 nx)]\<rparr>)"
  using assms
  by (simp add: set_patch_def getStore_def Let_def delete_keys_Nil cell_def)

lemma bind_live:
  "active s = Some r \<Longrightarrow> bind (Some \<lparr>live = Some True\<rparr>) fn s = (\<lambda>args. als_run r (fn args))"
  by (simp add: bind_def getStore_def getBoundStore_def opts_live_def fun_eq_iff)

lemma als_run_get:
  "als_run r (get (Some k)) t = (Inr (field (heap t) r k), t)"
  by (simp add: als_run_def get_def getStore_def)

text \<open>
  C5 (amended). In an active scope with store object \<open>r\<close>, when \<^verbatim>\<open>merge(store, patch)\<close>
  returns an object \<open>nx\<close> other than the store itself, without an own key \<^verbatim>\<open>__proto__\<close>,
  \<^verbatim>\<open>set(patch)\<close> leaves \<open>r\<close> the active store and replaces its fields by the fields of
  \<open>nx\<close>. A function bound live to the store before the update,
  and a listener registered on a live-bound emitter before the update, read the updated
  field when they are invoked afterwards, whatever scope \<open>a\<close> is active then.
\<close>

theorem set_in_place_seen_by_live:
  assumes "active s = Some r" and "r < length (heap s)"
    and "mrg (heap s) r patch = (h1, nx)" and "nx \<noteq> r" and "length (heap s) \<le> length h1"
    and "distinct (map fst (cell h1 nx))"
    and "''__proto__'' \<notin> fst ` set (cell h1 nx)"
    and "s' = snd (set_patch mrg patch s)"
  shows "active s' = Some r
       \<and> map_of (cell (heap s') r) = map_of (cell h1 nx)
       \<and> bind (Some \<lparr>live = Some True\<rparr>) (\<lambda>args. get (Some k)) s args (s'\<lparr>active := a\<rparr>)
           = (Inr (field h1 nx k), s'\<lparr>active := a\<rparr>)
       \<and> fst (emit (register (on (bindEmitter (Some \<lparr>live = Some True\<rparr>) EventEmitter)) evt
                      (\<lambda>args. get (Some k)) s
                      (bindEmitter (Some \<lparr>live = Some True\<rparr>) EventEmitter))
                 evt args (s'\<lparr>active := a\<rparr>))
           = (Inr [field h1 nx k], s'\<lparr>active := a\<rparr>)"
proof -
  have s': "s' = s\<lparr>heap := h1[r := assign [] (cell h1 nx)]\<rparr>"
    using set_patch_active[of s r mrg patch h1 nx] assms(1-5,8) by simp
  have r1: "r < length h1" using assms(2,5) by simp
  have "cell (heap s') r = assign [] (cell h1 nx)"
    using r1 by (simp add: s' cell_def)
  then have c: "map_of (cell (heap s') r) = map_of (cell h1 nx)"
    by (simp add: map_of_assign_Nil[OF assms(6,7)])
  have f: "field (heap s') r k = field h1 nx k"
    using c by (simp add: field_def)
  have b: "bind (Some \<lparr>live = Some True\<rparr>) (\<lambda>args. get (Some k)) s args (s'\<lparr>active := a\<rparr>)
           = (Inr (field h1 nx k), s'\<lparr>active := a\<rparr>)"
    using f by (simp add: bind_live[OF assms(1)] als_run_get)
  show ?thesis
    using b c assms(1)
    by (simp add: s' emit_def register_def bindEmitter_def prebind_def EventEmitter_def
        append_entry_def)
qed

text \<open>The store \<^verbatim>\<open>{x: 1}\<close> is active, a reader of \<^verbatim>\<open>x\<close> is bound live, \<^verbatim>\<open>set({x: 2})\<close> runs,
  and the bound reader, invoked outside every scope, returns 2.\<close>

theorem set_in_place_seen_by_live_witness:
  "active \<lparr>heap = [ [(''x'', VNum 1)], [(''x'', VNum 2)] ], active = Some 0\<rparr> = Some 0
   \<and> defaultMerge [ [(''x'', VNum 1)], [(''x'', VNum 2)] ] 0 1
        = ([ [(''x'', VNum 1)], [(''x'', VNum 2)], [(''x'', VNum 2)] ], 2)
   \<and> fst (bind (Some \<lparr>live = Some True\<rparr>) (\<lambda>args. get (Some ''x''))
         \<lparr>heap = [ [(''x'', VNum 1)], [(''x'', VNum 2)] ], active = Some 0\<rparr> []
         ((snd (set_patch defaultMerge 1
                 \<lparr>heap = [ [(''x'', VNum 1)], [(''x'', VNum 2)] ], active = Some 0\<rparr>))
          \<lparr>active := None\<rparr>))
       = Inr (VNum 2)"
proof -
  let ?s = "\<lparr>heap = [ [(''x'', VNum 1)], [(''x'', VNum 2)] ], active = Some 0\<rparr>"
  let ?h1 = "[ [(''x'', VNum 1)], [(''x'', VNum 2)], [(''x'', VNum 2)] ]"
  have m: "defaultMerge (heap ?s) 0 1 = (?h1, 2)"
    by (simp add: defaultMerge_def heap_defs)
  have "bind (Some \<lparr>live = Some True\<rparr>) (\<lambda>args. get (Some ''x'')) ?s []
          ((snd (set_patch defaultMerge 1 ?s))\<lparr>active := None\<rparr>)
        = (Inr (field ?h1 2 ''x''), (snd (set_patch defaultMerge 1 ?s))\<lparr>active := None\<rparr>)"
    using set_in_place_seen_by_live[where s = ?s and r = 0 and mrg = defaultMerge and patch = 1
        and ?h1.0 = ?h1 and nx = 2 and s' = "snd (set_patch defaultMerge 1 ?s)"
        and k = "''x''" and args = "[]" and a = None and evt = "''evt''", OF _ _ m]
    by (simp add: cell_def)
  then show ?thesis
    using m by (simp add: field_def cell_def)
qed

text \<open>
  C5 as stated fails for a merge strategy that returns the store itself: \<^verbatim>\<open>set\<close> deletes
  the keys of the store and then copies from the object the merge returned, which is the
  emptied store. With the store \<^verbatim>\<open>{x: 1}\<close> and \<^verbatim>\<open>merge = (prev, patch) => prev\<close>, the merge
  result has \<^verbatim>\<open>x = 1\<close>, and after \<^verbatim>\<open>set({})\<close> the store is empty.
\<close>

theorem set_empties_store_when_merge_returns_it:
  "merge_pure (\<lambda>h prev patch. (h, prev))
   \<and> field (fst ((\<lambda>h prev patch. (h, prev)) [ [(''x'', VNum 1)], [] ] 0 1))
        (snd ((\<lambda>h prev patch. (h, prev)) [ [(''x'', VNum 1)], [] ] 0 (1::nat))) ''x'' = VNum 1
   \<and> cell (heap (snd (set_patch (\<lambda>h prev patch. (h, prev)) 1
        \<lparr>heap = [ [(''x'', VNum 1)], [] ], active = Some 0\<rparr>))) 0 = []
   \<and> fst (get (Some ''x'') (snd (set_patch (\<lambda>h prev patch. (h, prev)) 1
        \<lparr>heap = [ [(''x'', VNum 1)], [] ], active = Some 0\<rparr>))) = Inr VUndef"
  by (simp add: merge_pure_def same_except_def set_patch_def getStore_def get_def heap_defs)

section \<open>Frames\<close>

lemma same_except_refl: "same_except W h h"
  by (simp add: same_except_def)

lemma same_except_mono: "same_except W h h' \<Longrightarrow> W \<subseteq> W' \<Longrightarrow> same_except W' h h'"
  by (auto simp: same_except_def)

lemma same_except_trans:
  assumes "same_except W h1 h2" and "same_except W' h2 h3"
    and "\<And>i. i < length h1 \<Longrightarrow> i \<in> W' \<Longrightarrow> i \<in> W"
  shows "same_except W h1 h3"
  using assms unfolding same_except_def
  by (metis le_trans less_le_trans)

lemma same_except_append: "same_except W h (h @ xs)"
  by (simp add: same_except_def nth_append)

lemma same_except_update: "same_except W h h' \<Longrightarrow> r \<in> W \<Longrightarrow> same_except W h (h'[r := x])"
  unfolding same_except_def by (metis length_list_update nth_list_update_neq)

lemma defaultMerge_pure: "merge_pure defaultMerge"
  by (simp add: merge_pure_def defaultMerge_def alloc_def same_except_append)

lemma merge_of_None_pure: "merge_pure (merge_of None)"
  by (simp add: merge_of_def defaultMerge_pure)

lemma frame_refl: "frame W s s"
  by (simp add: frame_def same_except_refl)

lemma frame_mono: "frame W s t \<Longrightarrow> W \<subseteq> W' \<Longrightarrow> frame W' s t"
  unfolding frame_def by (erule conjE, intro conjI, assumption, erule same_except_mono) auto

lemma frame_trans:
  assumes "frame W s t" and "frame W' t u"
    and "\<And>i. i < length (heap s) \<Longrightarrow> i \<in> W' \<Longrightarrow> i \<in> W \<or> Some i = active s"
  shows "frame W s u"
proof -
  have a: "active t = active s" "active u = active s"
    using assms(1,2) by (simp_all add: frame_def)
  have "same_except (W \<union> {r. active s = Some r}) (heap s) (heap u)"
  proof (rule same_except_trans)
    show "same_except (W \<union> {r. active s = Some r}) (heap s) (heap t)"
      using assms(1) by (simp add: frame_def)
    show "same_except (W' \<union> {r. active t = Some r}) (heap t) (heap u)"
      using assms(2) by (simp add: frame_def)
    show "i \<in> W \<union> {r. active s = Some r}"
      if "i < length (heap s)" "i \<in> W' \<union> {r. active t = Some r}" for i
      using that assms(3)[of i] a by auto
  qed
  then show ?thesis using a by (simp add: frame_def)
qed

lemma structuredClone_prefix:
  "structuredClone h r = Inr (h', r') \<Longrightarrow> same_except {} h h' \<and> length h \<le> r'"
  using structuredClone_InrD[of h r h' r'] by (simp add: same_except_append)

lemma frame_set_patch:
  assumes "merge_pure mrg"
  shows "frame W s (snd (set_patch mrg patch s))"
proof (cases "active s")
  case None
  then show ?thesis by (simp add: set_patch_def getStore_def frame_refl)
next
  case (Some r)
  obtain h1 nx where m: "mrg (heap s) r patch = (h1, nx)" by (cases "mrg (heap s) r patch")
  have p: "same_except (W \<union> {r}) (heap s) h1"
    using assms m unfolding merge_pure_def
    by (metis fst_conv same_except_mono empty_subsetI)
  have "same_except (W \<union> {r}) (heap s)
          ((h1[r := delete_keys (cell h1 r)])
             [r := assign (cell (h1[r := delete_keys (cell h1 r)]) r)
                          (cell (h1[r := delete_keys (cell h1 r)]) nx)])"
    by (intro same_except_update p) simp_all
  then show ?thesis
    by (simp add: set_patch_def getStore_def Some m Let_def frame_def)
qed

lemma frame_als_run:
  assumes "frame W (s\<lparr>active := Some st\<rparr>) (snd (fn (s\<lparr>active := Some st\<rparr>)))"
  shows "active (snd (als_run st fn s)) = active s"
    and "same_except (W \<union> {st}) (heap s) (heap (snd (als_run st fn s)))"
  using assms
  by (cases "fn (s\<lparr>active := Some st\<rparr>)"; simp add: als_run_def frame_def insert_commute)+

lemma frame_clone_js:
  "clone_js r s = (res, t) \<Longrightarrow> active t = active s \<and> same_except {} (heap s) (heap t)
     \<and> (\<forall>r'. res = Inr r' \<longrightarrow> length (heap s) \<le> r')"
  by (auto simp: clone_js_def same_except_refl split: sum.splits dest: structuredClone_prefix)

text \<open>Entering a scope with a copy: no object that existed before, outside \<open>W\<close>, changes,
  the previously active store included.\<close>

lemma scope_frame:
  assumes c: "clone_js r s0 = (Inr r', s1)"
    and f: "frame W (s1\<lparr>active := Some r'\<rparr>) (snd (fn (s1\<lparr>active := Some r'\<rparr>)))"
  shows "active (snd (als_run r' fn s1)) = active s0
       \<and> same_except W (heap s0) (heap (snd (als_run r' fn s1)))"
proof -
  have c': "active s1 = active s0" "same_except {} (heap s0) (heap s1)" "length (heap s0) \<le> r'"
    using frame_clone_js[OF c] by simp_all
  have a: "active (snd (als_run r' fn s1)) = active s0"
    using frame_als_run(1)[where W = W and s = s1 and st = r' and fn = fn] f c'(1) by simp
  have b: "same_except (W \<union> {r'}) (heap s1) (heap (snd (als_run r' fn s1)))"
    using frame_als_run(2)[where W = W and s = s1 and st = r' and fn = fn] f by simp
  have "same_except W (heap s0) (heap s1)"
    using c'(2) by (rule same_except_mono) simp
  then have "same_except W (heap s0) (heap (snd (als_run r' fn s1)))"
    using b by (rule same_except_trans) (use c'(3) in auto)
  with a show ?thesis by simp
qed

lemma run_frame:
  assumes "writes_within W fn"
  shows "active (snd (run initial fn s)) = active s
       \<and> same_except W (heap s) (heap (snd (run initial fn s)))"
proof -
  obtain res s1 where c: "clone_js initial s = (res, s1)" by (cases "clone_js initial s")
  show ?thesis
  proof (cases res)
    case (Inl e)
    have "same_except W (heap s) (heap s1)"
      using frame_clone_js[OF c] by (auto elim: same_except_mono)
    then show ?thesis
      using frame_clone_js[OF c] by (simp add: run_def c Inl)
  next
    case (Inr r')
    have f: "frame W (s1\<lparr>active := Some r'\<rparr>) (snd (fn (s1\<lparr>active := Some r'\<rparr>)))"
      using assms by (simp add: writes_within_def)
    show ?thesis
      using scope_frame[where r = initial and ?s0.0 = s and r' = r' and ?s1.0 = s1 and W = W and fn = fn] c f by (simp add: run_def Inr)
  qed
qed

lemma withScope_frame:
  assumes "merge_pure mrg" and "writes_within W fn"
  shows "active (snd (withScope mrg patch fn s)) = active s
       \<and> same_except W (heap s) (heap (snd (withScope mrg patch fn s)))"
proof -
  obtain h0 cur where cu: "(case getStore s of Some c \<Rightarrow> (heap s, c) | None \<Rightarrow> alloc (heap s) []) = (h0, cur)"
    by (cases "case getStore s of Some c \<Rightarrow> (heap s, c) | None \<Rightarrow> alloc (heap s) []")
  obtain h1 nx where m: "mrg h0 cur patch = (h1, nx)" by (cases "mrg h0 cur patch")
  obtain res s1 where c: "clone_js nx (s\<lparr>heap := h1\<rparr>) = (res, s1)"
    by (cases "clone_js nx (s\<lparr>heap := h1\<rparr>)")
  have w: "withScope mrg patch fn s =
      (case (res, s1) of (Inl e, t) \<Rightarrow> (Inl e, t) | (Inr r', t) \<Rightarrow> als_run r' fn t)"
    by (simp add: withScope_def cu m c)
  have h0: "same_except {} (heap s) h0"
    using cu by (auto simp: alloc_def same_except_refl same_except_append split: option.splits)
  have "same_except {} h0 h1"
    using assms(1) m unfolding merge_pure_def by (metis fst_conv)
  with h0 have h1: "same_except {} (heap s) h1"
    by (rule same_except_trans) simp
  have pre: "same_except W (heap s) (heap (s\<lparr>heap := h1\<rparr>))"
    using h1 by (auto elim: same_except_mono)
  show ?thesis
  proof (cases res)
    case (Inl e)
    have "same_except W (heap (s\<lparr>heap := h1\<rparr>)) (heap s1)"
      using frame_clone_js[OF c] by (auto elim: same_except_mono)
    with pre have "same_except W (heap s) (heap s1)"
      by (rule same_except_trans) simp
    then show ?thesis
      using frame_clone_js[OF c] by (simp add: w Inl)
  next
    case (Inr r')
    have f: "frame W (s1\<lparr>active := Some r'\<rparr>) (snd (fn (s1\<lparr>active := Some r'\<rparr>)))"
      using assms(2) by (simp add: writes_within_def)
    have sf: "active (snd (als_run r' fn s1)) = active (s\<lparr>heap := h1\<rparr>)
       \<and> same_except W (heap (s\<lparr>heap := h1\<rparr>)) (heap (snd (als_run r' fn s1)))"
      using scope_frame[where r = nx and ?s0.0 = "s\<lparr>heap := h1\<rparr>" and r' = r' and ?s1.0 = s1 and W = W and fn = fn] c f by (simp add: Inr)
    have "same_except W (heap s) (heap (snd (als_run r' fn s1)))"
      using pre sf by (rule same_except_trans[where W' = W, OF _ conjunct2]) simp
    then show ?thesis
      using sf by (simp add: w Inr)
  qed
qed

lemma writes_within_mono: "writes_within W f \<Longrightarrow> W \<subseteq> W' \<Longrightarrow> writes_within W' f"
  unfolding writes_within_def by (blast intro: frame_mono)

lemma env_ok_mono: "env_ok W env \<Longrightarrow> W \<subseteq> W' \<Longrightarrow> env_ok W' env"
  unfolding env_ok_def by (blast intro: writes_within_mono)

lemma snd_lift: "snd (lift env m s) = snd (m s)"
  by (simp add: lift_def split: prod.splits sum.splits)

lemma snd_result: "snd (result m s) = snd (m s)"
  by (simp add: result_def split: prod.splits sum.splits)

lemma fst_lift: "fst (lift env m s) = Inr (v, env') \<Longrightarrow> env' = env"
  by (auto simp: lift_def split: prod.splits sum.splits)

lemma frame_bind:
  assumes "\<And>args. writes_within W (fn args)"
  shows "writes_within (W \<union> {r. active s = Some r}) (bind opts fn s args)"
proof (cases "active s")
  case None
  then show ?thesis
    using assms[of args] by (simp add: bind_def getStore_def)
next
  case (Some c)
  show ?thesis
    unfolding writes_within_def
  proof
    fix t
    let ?b = "bind opts fn s args t"
    have f: "\<And>u. frame W u (snd (fn args u))"
      using assms[of args] by (simp add: writes_within_def)
    show "frame (W \<union> {r. active s = Some r}) t (snd ?b)"
    proof (cases "opts_live opts")
      case True
      have b: "?b = als_run c (fn args) t"
        using True by (simp add: bind_def getStore_def Some getBoundStore_def)
      have "active (snd ?b) = active t"
        "same_except (W \<union> {c}) (heap t) (heap (snd ?b))"
        unfolding b
        using frame_als_run[where W = W and s = t and st = c and fn = "fn args"] f
        by simp_all
      then show ?thesis
        by (auto simp: frame_def Some elim: same_except_mono)
    next
      case False
      obtain res t1 where c: "clone_js c t = (res, t1)" by (cases "clone_js c t")
      show ?thesis
      proof (cases res)
        case (Inl e)
        have "?b = (Inl e, t1)"
          using False by (simp add: bind_def getStore_def Some getBoundStore_def c Inl)
        then show ?thesis
          using frame_clone_js[OF c] by (auto simp: frame_def elim: same_except_mono)
      next
        case (Inr r')
        have b: "?b = als_run r' (fn args) t1"
          using False by (simp add: bind_def getStore_def Some getBoundStore_def c Inr)
        have "active (snd ?b) = active t \<and> same_except W (heap t) (heap (snd ?b))"
          unfolding b
          using scope_frame[where r = c and ?s0.0 = t and r' = r' and ?s1.0 = t1 and W = W
              and fn = "fn args"] c f
          by (simp add: Inr)
        then show ?thesis
          by (auto simp: frame_def elim: same_except_mono)
      qed
    qed
  qed
qed

lemma run_InrD:
  assumes "fst (run initial fn s) = Inr x"
  shows "\<exists>t r'. length (heap s) \<le> length (heap t) \<and> length (heap s) \<le> r'
            \<and> active t = Some r' \<and> fst (fn t) = Inr x"
proof -
  obtain res s1 where c: "clone_js initial s = (res, s1)" by (cases "clone_js initial s")
  from assms obtain r' where r: "res = Inr r'"
    by (cases res) (simp_all add: run_def c)
  have "fst (fn (s1\<lparr>active := Some r'\<rparr>)) = Inr x"
    using assms by (simp add: run_def c r als_run_def split: prod.splits)
  moreover have "length (heap s) \<le> length (heap s1)" "length (heap s) \<le> r'"
    using frame_clone_js[OF c] r by (simp_all add: same_except_def)
  ultimately show ?thesis
    by (intro exI[of _ "s1\<lparr>active := Some r'\<rparr>"] exI[of _ r']) simp
qed

lemma withScope_InrD:
  assumes "merge_pure mrg" and "fst (withScope mrg patch fn s) = Inr x"
  shows "\<exists>t r'. length (heap s) \<le> length (heap t) \<and> length (heap s) \<le> r'
            \<and> active t = Some r' \<and> fst (fn t) = Inr x"
proof -
  obtain h0 cur where cu: "(case getStore s of Some c \<Rightarrow> (heap s, c) | None \<Rightarrow> alloc (heap s) []) = (h0, cur)"
    by (cases "case getStore s of Some c \<Rightarrow> (heap s, c) | None \<Rightarrow> alloc (heap s) []")
  obtain h1 nx where m: "mrg h0 cur patch = (h1, nx)" by (cases "mrg h0 cur patch")
  obtain res s1 where c: "clone_js nx (s\<lparr>heap := h1\<rparr>) = (res, s1)"
    by (cases "clone_js nx (s\<lparr>heap := h1\<rparr>)")
  have w: "withScope mrg patch fn s =
      (case (res, s1) of (Inl e, t) \<Rightarrow> (Inl e, t) | (Inr r', t) \<Rightarrow> als_run r' fn t)"
    by (simp add: withScope_def cu m c)
  have "length (heap s) \<le> length h0"
    using cu by (auto simp: alloc_def split: option.splits)
  moreover have "length h0 \<le> length h1"
    using assms(1) m unfolding merge_pure_def same_except_def by (metis fst_conv)
  ultimately have l: "length (heap s) \<le> length h1" by simp
  from assms(2) obtain r' where r: "res = Inr r'"
    by (cases res) (simp_all add: w)
  have "fst (fn (s1\<lparr>active := Some r'\<rparr>)) = Inr x"
    using assms(2) by (simp add: w r als_run_def split: prod.splits)
  moreover have "length (heap s) \<le> length (heap s1)" "length (heap s) \<le> r'"
    using frame_clone_js[OF c] r l by (simp_all add: same_except_def)
  ultimately show ?thesis
    by (intro exI[of _ "s1\<lparr>active := Some r'\<rparr>"] exI[of _ r']) simp
qed

lemma frame_lift_same:
  assumes "env_ok W env" and "\<And>s. frame W s (snd (m s))"
  shows "frame W s (snd (lift env m s)) \<and>
         (\<forall>v env'. fst (lift env m s) = Inr (v, env') \<longrightarrow>
            env_ok (W \<union> {r. active s = Some r} \<union> {length (heap s)..}) env')"
proof -
  have "env_ok (W \<union> {r. active s = Some r} \<union> {length (heap s)..}) env"
    using assms(1) by (rule env_ok_mono) auto
  then show ?thesis
    using assms(2)[of s] by (auto simp: snd_lift dest: fst_lift)
qed

lemma exec_frame:
  assumes mp: "merge_pure mrg"
  shows "env_ok W env \<Longrightarrow>
         frame W s (snd (exec mrg p env s)) \<and>
         (\<forall>v env'. fst (exec mrg p env s) = Inr (v, env') \<longrightarrow>
            env_ok (W \<union> {r. active s = Some r} \<union> {length (heap s)..}) env')"
proof (induction p arbitrary: W env s)
  case Skip
  show ?case unfolding exec.simps
    by (rule frame_lift_same[OF Skip]) (simp add: frame_refl)
next
  case (Seq p q)
  let ?W1 = "W \<union> {r. active s = Some r} \<union> {length (heap s)..}"
  obtain res t where e: "exec mrg p env s = (res, t)" by (cases "exec mrg p env s")
  have ft: "frame W s t"
    and env1: "\<And>v env1. res = Inr (v, env1) \<Longrightarrow> env_ok ?W1 env1"
    using Seq.IH(1)[OF Seq.prems, of s] by (simp_all add: e)
  show ?case
  proof (cases res)
    case (Inl err)
    then show ?thesis using ft by (simp add: e)
  next
    case (Inr ve)
    obtain v env1 where ve: "ve = (v, env1)" by (cases ve)
    have ok1: "env_ok ?W1 env1" using env1 Inr ve by simp
    have x: "exec mrg (Seq p q) env s = exec mrg q env1 t"
      by (simp add: e Inr ve)
    have at: "active t = active s" and len: "length (heap s) \<le> length (heap t)"
      using ft by (simp_all add: frame_def same_except_def)
    have f2: "frame ?W1 t (snd (exec mrg q env1 t))"
      and env2: "\<And>v env2. fst (exec mrg q env1 t) = Inr (v, env2) \<Longrightarrow>
                   env_ok (?W1 \<union> {r. active t = Some r} \<union> {length (heap t)..}) env2"
      using Seq.IH(2)[OF ok1, of t] by simp_all
    have "frame W s (snd (exec mrg q env1 t))"
      using ft f2 by (rule frame_trans) auto
    moreover have "env_ok ?W1 env2" if "fst (exec mrg q env1 t) = Inr (v, env2)" for v env2
      using env2[OF that] by (rule env_ok_mono) (use at len in auto)
    ultimately show ?thesis
      unfolding x by blast
  qed
next
  case (Throw msg)
  show ?case by (simp add: frame_refl)
next
  case Has
  show ?case unfolding exec.simps
    by (rule frame_lift_same[OF Has]) (simp add: frame_refl has_def)
next
  case (Get key)
  show ?case unfolding exec.simps
    by (rule frame_lift_same[OF Get]) (simp add: frame_refl get_def split: option.splits)
next
  case Use
  show ?case unfolding exec.simps
    by (rule frame_lift_same[OF Use]) (simp add: frame_refl use_def split: option.splits)
next
  case (Set patch)
  show ?case unfolding exec.simps
    by (rule frame_lift_same[OF Set]) (rule frame_set_patch[OF mp])
next
  case (Run initial body)
  have ww: "writes_within W (exec mrg body env)"
    unfolding writes_within_def using Run.IH[OF Run.prems] by blast
  have "frame W s (snd (run initial (exec mrg body env) s))"
    using run_frame[OF ww, of initial s]
    by (auto simp: frame_def elim: same_except_mono)
  moreover have "env_ok (W \<union> {r. active s = Some r} \<union> {length (heap s)..}) env'"
    if "fst (run initial (exec mrg body env) s) = Inr (v, env')" for v env'
  proof -
    from run_InrD[OF that] obtain t r' where t: "length (heap s) \<le> length (heap t)"
      "length (heap s) \<le> r'" "active t = Some r'" "fst (exec mrg body env t) = Inr (v, env')"
      by blast
    have "env_ok (W \<union> {r. active t = Some r} \<union> {length (heap t)..}) env'"
      using Run.IH[OF Run.prems, of t] t(4) by blast
    then show ?thesis
      by (rule env_ok_mono) (use t in auto)
  qed
  ultimately show ?case by simp
next
  case (With patch body)
  have ww: "writes_within W (exec mrg body env)"
    unfolding writes_within_def using With.IH[OF With.prems] by blast
  have "frame W s (snd (withScope mrg patch (exec mrg body env) s))"
    using withScope_frame[OF mp ww, of patch s]
    by (auto simp: frame_def elim: same_except_mono)
  moreover have "env_ok (W \<union> {r. active s = Some r} \<union> {length (heap s)..}) env'"
    if "fst (withScope mrg patch (exec mrg body env) s) = Inr (v, env')" for v env'
  proof -
    from withScope_InrD[OF mp that] obtain t r' where t: "length (heap s) \<le> length (heap t)"
      "length (heap s) \<le> r'" "active t = Some r'" "fst (exec mrg body env t) = Inr (v, env')"
      by blast
    have "env_ok (W \<union> {r. active t = Some r} \<union> {length (heap t)..}) env'"
      using With.IH[OF With.prems, of t] t(4) by blast
    then show ?thesis
      by (rule env_ok_mono) (use t in auto)
  qed
  ultimately show ?case by simp
next
  case (Bind x opts body)
  let ?W1 = "W \<union> {r. active s = Some r} \<union> {length (heap s)..}"
  have ww: "writes_within W (result (exec mrg body env))"
    unfolding writes_within_def using Bind.IH[OF Bind.prems] by (simp add: snd_result)
  have b: "writes_within ?W1 (bind opts (\<lambda>args. result (exec mrg body env)) s args)" for args
    using frame_bind[where W = W and fn = "\<lambda>args. result (exec mrg body env)" and s = s
        and opts = opts and args = args] ww
    by (auto elim: writes_within_mono)
  have "env_ok ?W1 env"
    using Bind.prems by (rule env_ok_mono) auto
  then have "env_ok ?W1 (env(x \<mapsto> bind opts (\<lambda>args. result (exec mrg body env)) s))"
    using b by (simp add: env_ok_def)
  then show ?case by (simp add: frame_refl)
next
  case (Call x)
  show ?case
  proof (cases "env x")
    case None
    then show ?thesis by (simp add: frame_refl)
  next
    case (Some f)
    have f: "\<And>u. frame W u (snd (f [] u))"
      using Call Some by (simp add: env_ok_def writes_within_def)
    show ?thesis
      using frame_lift_same[OF Call, of "f []" s] f by (simp add: Some)
  qed
qed

section \<open>Leaving a scope\<close>

lemma run_restores: "active (snd (run initial fn s)) = active s"
  by (simp add: run_def clone_js_def als_run_def split: sum.splits prod.splits)

lemma withScope_restores: "active (snd (withScope mrg patch fn s)) = active s"
  by (simp add: withScope_def clone_js_def als_run_def split: sum.splits prod.splits option.splits)

lemma env_ok_empty: "env_ok W Map.empty"
  by (simp add: env_ok_def)

lemma env_ok_live_setter:
  assumes "merge_pure mrg"
  shows "env_ok ({r. active s = Some r} \<union> {length (heap s)..}) (live_setter mrg p s)"
proof -
  have "fst (exec mrg (Bind ''b'' (Some \<lparr>live = Some True\<rparr>) (Set p)) Map.empty s)
          = Inr (VUndef, live_setter mrg p s)"
    by (simp add: live_setter_def)
  then show ?thesis
    using exec_frame[OF assms env_ok_empty[of "{}"], of s "Bind ''b'' (Some \<lparr>live = Some True\<rparr>) (Set p)"]
    by simp
qed

text \<open>
  C2 (amended). After \<^verbatim>\<open>run(initial, fn)\<close> or \<^verbatim>\<open>with(patch, fn)\<close> returns or throws, the
  active store is the object that was active before entry, for every function \<^verbatim>\<open>fn\<close>.
  For client code \<open>body\<close> whose functions in scope are live-bound only to stores in \<open>W\<close>,
  every object that existed before entry and is not in \<open>W\<close> has its fields unchanged
  after the exit, whether \<open>body\<close> returned or threw: the previously active store keeps
  its field values unless a function live-bound to it is in scope.
\<close>

theorem scope_exit_restores:
  assumes "merge_pure mrg" and "env_ok W env"
  shows "active (snd (run initial fn s)) = active s
       \<and> active (snd (withScope mrg patch fn s)) = active s
       \<and> active (snd (exec mrg (Run initial body) env s)) = active s
       \<and> active (snd (exec mrg (With patch body) env s)) = active s
       \<and> (\<forall>i<length (heap s). i \<notin> W \<longrightarrow>
             heap (snd (exec mrg (Run initial body) env s)) ! i = heap s ! i)
       \<and> (\<forall>i<length (heap s). i \<notin> W \<longrightarrow>
             heap (snd (exec mrg (With patch body) env s)) ! i = heap s ! i)"
proof -
  have ww: "writes_within W (exec mrg body env)"
    unfolding writes_within_def using exec_frame[OF assms] by blast
  have "same_except W (heap s) (heap (snd (run initial (exec mrg body env) s)))"
    using run_frame[OF ww] by blast
  moreover have "same_except W (heap s) (heap (snd (withScope mrg patch (exec mrg body env) s)))"
    using withScope_frame[OF assms(1) ww] by blast
  ultimately show ?thesis
    by (simp add: run_restores withScope_restores same_except_def)
qed

text \<open>A function live-bound to store 2 is in scope, store 0 is active; a nested scope
  that calls the function and throws leaves store 0 active and unchanged.\<close>

theorem scope_exit_restores_witness:
  "merge_pure (merge_of None)
   \<and> env_ok ({2} \<union> {3..})
        (live_setter (merge_of None) 1
           \<lparr>heap = [ [(''a'', VNum 1)], [(''b'', VNum 3)], [(''z'', VNum 0)] ], active = Some 2\<rparr>)
   \<and> fst (exec (merge_of None) (With 1 (Seq (Call ''b'') (Throw ''boom'')))
        (live_setter (merge_of None) 1
           \<lparr>heap = [ [(''a'', VNum 1)], [(''b'', VNum 3)], [(''z'', VNum 0)] ], active = Some 2\<rparr>)
        \<lparr>heap = [ [(''a'', VNum 1)], [(''b'', VNum 3)], [(''z'', VNum 0)] ], active = Some 0\<rparr>)
       = Inl (Error ''boom'')
   \<and> active (snd (exec (merge_of None) (With 1 (Seq (Call ''b'') (Throw ''boom'')))
        (live_setter (merge_of None) 1
           \<lparr>heap = [ [(''a'', VNum 1)], [(''b'', VNum 3)], [(''z'', VNum 0)] ], active = Some 2\<rparr>)
        \<lparr>heap = [ [(''a'', VNum 1)], [(''b'', VNum 3)], [(''z'', VNum 0)] ], active = Some 0\<rparr>))
       = Some 0
   \<and> heap (snd (exec (merge_of None) (With 1 (Seq (Call ''b'') (Throw ''boom'')))
        (live_setter (merge_of None) 1
           \<lparr>heap = [ [(''a'', VNum 1)], [(''b'', VNum 3)], [(''z'', VNum 0)] ], active = Some 2\<rparr>)
        \<lparr>heap = [ [(''a'', VNum 1)], [(''b'', VNum 3)], [(''z'', VNum 0)] ], active = Some 0\<rparr>)) ! 0
       = [(''a'', VNum 1)]"
proof -
  let ?h = "[ [(''a'', VNum 1)], [(''b'', VNum 3)], [(''z'', VNum 0)] ]"
  let ?env = "live_setter (merge_of None) 1 \<lparr>heap = ?h, active = Some 2\<rparr>"
  let ?s = "\<lparr>heap = ?h, active = Some 0\<rparr>"
  have ok: "env_ok ({2} \<union> {3..}) ?env"
    using env_ok_live_setter[OF merge_of_None_pure, of "\<lparr>heap = ?h, active = Some 2\<rparr>" 1]
    by (simp add: eval_nat_numeral)
  have thr: "fst (exec (merge_of None) (With 1 (Seq (Call ''b'') (Throw ''boom''))) ?env ?s)
       = Inl (Error ''boom'')"
    by (simp add: live_setter_def engine_defs heap_defs clone_defs)
  note T = scope_exit_restores[OF merge_of_None_pure ok, where s = ?s and patch = 1
      and body = "Seq (Call ''b'') (Throw ''boom'')"]
  have a: "active (snd (exec (merge_of None) (With 1 (Seq (Call ''b'') (Throw ''boom''))) ?env ?s))
       = active ?s"
    by (rule T[THEN conjunct2, THEN conjunct2, THEN conjunct2, THEN conjunct1])
  have "0 < length (heap ?s) \<and> 0 \<notin> {2} \<union> {3::nat..}"
    by simp
  then have "heap (snd (exec (merge_of None) (With 1 (Seq (Call ''b'') (Throw ''boom''))) ?env ?s)) ! 0
       = heap ?s ! 0"
    using T[THEN conjunct2, THEN conjunct2, THEN conjunct2, THEN conjunct2, THEN conjunct2,
        rule_format, of 0]
    by blast
  then show ?thesis
    using merge_of_None_pure ok thr a by (simp del: exec.simps)
qed

text \<open>
  C2 as stated fails: in the scope of store \<^verbatim>\<open>{a: 1}\<close> a function that runs \<^verbatim>\<open>set({a: 2})\<close>
  is bound live; \<^verbatim>\<open>get('a')\<close> then returns 1. When a nested \<^verbatim>\<open>run\<close> calls the bound
  function, \<^verbatim>\<open>get('a')\<close> after the nested \<^verbatim>\<open>run\<close> has returned is 2.
\<close>

theorem run_live_binding_changes_outer_store:
  "outcome (exec (merge_of None)
      (Run 0 (Seq (Bind ''b'' (Some \<lparr>live = Some True\<rparr>) (Set 1)) (Get (Some ''a''))))
      Map.empty \<lparr>heap = [ [(''a'', VNum 1)], [(''a'', VNum 2)], [] ], active = None\<rparr>)
    = Inr (VNum 1)
   \<and> outcome (exec (merge_of None)
      (Run 0 (Seq (Bind ''b'' (Some \<lparr>live = Some True\<rparr>) (Set 1))
             (Seq (Run 2 (Call ''b'')) (Get (Some ''a'')))))
      Map.empty \<lparr>heap = [ [(''a'', VNum 1)], [(''a'', VNum 2)], [] ], active = None\<rparr>)
    = Inr (VNum 2)"
  by (simp add: engine_defs heap_defs clone_defs)

section \<open>Independence of the copy\<close>

lemma wf_heapD: "wf_heap h \<Longrightarrow> q < length h \<Longrightarrow> q' \<in> set (orefs (h ! q)) \<Longrightarrow> q' < length h"
  unfolding wf_heap_def list_all_iff by (meson nth_mem)

lemma orefs_copy_cell:
  "orefs (copy_cell h rs q) = map (\<lambda>q'. length h + idx rs q') (orefs (h ! q))"
proof -
  have v: "vrefs (rn rs n v) = map (\<lambda>q'. n + idx rs q') (vrefs v)" for n v
    by (cases v) simp_all
  have "concat (map (\<lambda>(k, v). vrefs v) (map (\<lambda>(k, v). (k, rn rs n v)) ob))
          = map (\<lambda>q'. n + idx rs q') (concat (map (\<lambda>(k, v). vrefs v) ob))" for n ob
    by (induction ob) (auto simp: v)
  then show ?thesis
    by (simp add: orefs_def copy_cell_def)
qed

lemma clone_new_cells:
  assumes wf: "wf_heap h" and c: "structuredClone h r = Inr (h', r')"
    and i: "length h \<le> i" "i < length h'"
  shows "set (orefs (h' ! i)) \<subseteq> {length h..<length h'}"
proof -
  let ?rs = "collect h [r] []"
  have h': "h' = h @ map (copy_cell h ?rs) ?rs"
    by (rule structuredClone_InrD(1)[OF c])
  obtain j where j: "i = length h + j" "j < length ?rs"
    using i h' by (metis add_diff_inverse_nat length_append length_map nat_add_left_cancel_less not_less)
  have mem: "?rs ! j \<in> set ?rs" using j(2) by simp
  then have lt: "?rs ! j < length h"
    using reach_props(2)[where h = h and r = r] by auto
  have cell: "h' ! i = copy_cell h ?rs (?rs ! j)"
    using j by (simp add: h' nth_append)
  have "length h + idx ?rs q' \<in> {length h..<length h'}"
    if "q' \<in> set (orefs (h ! (?rs ! j)))" for q'
  proof -
    have "q' < length h" using wf_heapD[OF wf lt that] .
    then have "q' \<in> set ?rs"
      using reach_props(4)[where h = h and r = r] mem that by blast
    then show ?thesis
      using idx_less[of q' ?rs] by (simp add: h')
  qed
  then show ?thesis
    unfolding cell orefs_copy_cell by auto
qed



lemma set_patch_only_active:
  assumes "merge_pure mrg" and "active t = Some r'" and "i < length (heap t)" and "i \<noteq> r'"
  shows "heap (snd (set_patch mrg p t)) ! i = heap t ! i"
  using frame_set_patch[OF assms(1), of "{}" t p] assms(2-4)
  by (simp add: frame_def same_except_def)

lemma state_updates:
  "(s::state)\<lparr>heap := h, active := a\<rparr> = \<lparr>heap = h, active = a\<rparr>"
  by (cases s) simp

lemma als_scope_eq:
  "clone_js r s = (Inr r', s1) \<Longrightarrow>
     als_run r' fn s1 = (case fn \<lparr>heap = heap s1, active = Some r'\<rparr> of (res, t) \<Rightarrow> (res, t\<lparr>active := active s\<rparr>))"
  for s :: state
  by (auto simp: als_run_def clone_js_def state_updates split: sum.splits)

section \<open>The store of a scope is a copy\<close>



section \<open>Nested scopes\<close>

lemma same_except_empty_take: "same_except {} h h' \<Longrightarrow> take (length h) h' = h"
  unfolding same_except_def by (intro nth_equalityI) simp_all

text \<open>
  C3 (amended). \<^verbatim>\<open>with(patch, fn)\<close> takes the active store as \<^verbatim>\<open>current\<close> (a new empty
  object when no scope is active), and runs \<^verbatim>\<open>fn\<close> with a new object \<open>r'\<close> as the active
  store, which has the field values of \<^verbatim>\<open>merge(current, patch)\<close> at every depth and refers
  to new objects only; entering the scope changes no existing object. A \<^verbatim>\<open>set\<close>
  performed while the nested store is active changes no other object. After the exit,
  every object that existed before entry and is not in \<open>W\<close>, the set bounding the stores
  that the functions in scope are live-bound to, has its fields unchanged: the parent
  store has its pre-entry field values unless a function live-bound to it is in scope.
\<close>

theorem with_scope_copy:
  assumes "merge_pure mrg" and "env_ok W env"
    and "(case active s of Some c \<Rightarrow> (heap s, c) | None \<Rightarrow> alloc (heap s) []) = (h0, current)"
    and "mrg h0 current patch = (h1, next)"
    and "wf_heap h1"
    and "structuredClone h1 next = Inr (h2, r')"
  shows "withScope mrg patch fn s =
           (case fn \<lparr>heap = h2, active = Some r'\<rparr> of (res, t) \<Rightarrow> (res, t\<lparr>active := active s\<rparr>))
       \<and> (\<forall>m. obs m h2 (VRef r') = obs m h1 (VRef next))
       \<and> take (length (heap s)) h2 = heap s
       \<and> length (heap s) \<le> r'
       \<and> (\<forall>i. length h1 \<le> i \<and> i < length h2 \<longrightarrow>
             set (orefs (h2 ! i)) \<subseteq> {length h1..<length h2})
       \<and> (\<forall>t p i. active t = Some r' \<and> i < length (heap t) \<and> i \<noteq> r' \<longrightarrow>
             heap (snd (set_patch mrg p t)) ! i = heap t ! i)
       \<and> (\<forall>i<length (heap s). i \<notin> W \<longrightarrow>
             heap (snd (exec mrg (With patch body) env s)) ! i = heap s ! i)"
proof -
  have c: "clone_js next (s\<lparr>heap := h1\<rparr>) = (Inr r', s\<lparr>heap := h2\<rparr>)"
    by (simp add: clone_js_def assms(6))
  have 1: "withScope mrg patch fn s =
           (case fn \<lparr>heap = h2, active = Some r'\<rparr> of (res, t) \<Rightarrow> (res, t\<lparr>active := active s\<rparr>))"
    using als_scope_eq[OF c, of fn] assms(3,4) by (simp add: withScope_def getStore_def c)
  have 2: "\<forall>m. obs m h2 (VRef r') = obs m h1 (VRef next)"
    using clone_obs[OF assms(6)] by simp
  have a: "same_except {} (heap s) h0"
    using assms(3) by (auto simp: alloc_def same_except_refl same_except_append split: option.splits)
  have b: "same_except {} h0 h1"
    using assms(1,4) unfolding merge_pure_def by (metis fst_conv)
  have d: "same_except {} h1 h2" "length h1 \<le> r'"
    using structuredClone_prefix[OF assms(6)] by simp_all
  have e: "same_except {} (heap s) h2"
    using same_except_trans[OF same_except_trans[OF a b] d(1)] by simp
  have 3: "take (length (heap s)) h2 = heap s"
    by (rule same_except_empty_take[OF e])
  have 4: "length (heap s) \<le> r'"
    using a b d(2) by (simp add: same_except_def)
  have 5: "\<forall>i. length h1 \<le> i \<and> i < length h2 \<longrightarrow> set (orefs (h2 ! i)) \<subseteq> {length h1..<length h2}"
    using clone_new_cells[OF assms(5,6)] by blast
  have 6: "\<forall>t p i. active t = Some r' \<and> i < length (heap t) \<and> i \<noteq> r' \<longrightarrow>
             heap (snd (set_patch mrg p t)) ! i = heap t ! i"
    using set_patch_only_active[OF assms(1)] by blast
  have ww: "writes_within W (exec mrg body env)"
    unfolding writes_within_def using exec_frame[OF assms(1,2)] by blast
  have 7: "\<forall>i<length (heap s). i \<notin> W \<longrightarrow>
             heap (snd (exec mrg (With patch body) env s)) ! i = heap s ! i"
    using withScope_frame[OF assms(1) ww, of patch s] by (simp add: same_except_def)
  show ?thesis
    using 1 2 3 4 5 6 7 by blast
qed


text \<open>The scenario \<^verbatim>\<open>run({a:1,b:2}, () => { with({b:3}, () => { set({a:10}); get() }); get() })\<close>:
  inside the nested scope \<^verbatim>\<open>get()\<close> is \<^verbatim>\<open>{a:10,b:3}\<close>, after it \<^verbatim>\<open>get()\<close> is
  \<^verbatim>\<open>{a:1,b:2}\<close>. The theorem is applied to the state in which \<^verbatim>\<open>with\<close> is entered.\<close>

theorem with_scope_copy_witness:
  "merge_pure (merge_of None) \<and> env_ok {} Map.empty
   \<and> observed (Suc 0)
        (exec (merge_of None) (Run 0 (With 1 (Seq (Set 2) (Get None)))) Map.empty
           \<lparr>heap = [ [(''a'', VNum 1), (''b'', VNum 2)], [(''b'', VNum 3)], [(''a'', VNum 10)] ],
             active = None\<rparr>)
       = Inr (TObj [(''a'', TNum 10), (''b'', TNum 3)])
   \<and> observed (Suc 0)
        (exec (merge_of None) (Run 0 (Seq (With 1 (Seq (Set 2) (Get None))) (Get None))) Map.empty
           \<lparr>heap = [ [(''a'', VNum 1), (''b'', VNum 2)], [(''b'', VNum 3)], [(''a'', VNum 10)] ],
             active = None\<rparr>)
       = Inr (TObj [(''a'', TNum 1), (''b'', TNum 2)])
   \<and> heap (snd (exec (merge_of None) (With 1 (Seq (Set 2) (Get None))) Map.empty
        \<lparr>heap = [ [(''a'', VNum 1), (''b'', VNum 2)], [(''b'', VNum 3)], [(''a'', VNum 10)],
                   [(''a'', VNum 1), (''b'', VNum 2)] ],
          active = Some 3\<rparr>)) ! 3
       = [(''a'', VNum 1), (''b'', VNum 2)]"
proof -
  let ?h = "[ [(''a'', VNum 1), (''b'', VNum 2)], [(''b'', VNum 3)], [(''a'', VNum 10)],
              [(''a'', VNum 1), (''b'', VNum 2)] ]"
  let ?h1 = "?h @ [ [(''a'', VNum 1), (''b'', VNum 3)] ]"
  let ?h2 = "?h1 @ [ [(''a'', VNum 1), (''b'', VNum 3)] ]"
  let ?s = "\<lparr>heap = ?h, active = Some 3\<rparr>"
  have cur: "(case active ?s of Some c \<Rightarrow> (heap ?s, c) | None \<Rightarrow> alloc (heap ?s) []) = (?h, 3)"
    by simp
  have m: "merge_of None ?h 3 1 = (?h1, 4)"
    by (simp add: merge_of_def defaultMerge_def heap_defs)
  have wf: "wf_heap ?h1"
    by (simp add: wf_heap_def orefs_def)
  have c: "structuredClone ?h1 4 = Inr (?h2, 5)"
    by (simp add: clone_defs)
  note T = with_scope_copy[OF merge_of_None_pure env_ok_empty[of "{}"] cur m wf c,
      where body = "Seq (Set 2) (Get None)"]
  have "3 < length (heap ?s) \<and> 3 \<notin> ({} :: nat set)"
    by simp
  then have k: "heap (snd (exec (merge_of None) (With 1 (Seq (Set 2) (Get None))) Map.empty ?s)) ! 3
       = heap ?s ! 3"
    using T[THEN conjunct2, THEN conjunct2, THEN conjunct2, THEN conjunct2, THEN conjunct2,
        THEN conjunct2, rule_format, of 3]
    by blast
  have i: "observed (Suc 0)
        (exec (merge_of None) (Run 0 (With 1 (Seq (Set 2) (Get None)))) Map.empty
           \<lparr>heap = [ [(''a'', VNum 1), (''b'', VNum 2)], [(''b'', VNum 3)], [(''a'', VNum 10)] ],
             active = None\<rparr>)
       = Inr (TObj [(''a'', TNum 10), (''b'', TNum 3)])"
    by (simp add: observed_def engine_defs heap_defs clone_defs)
  have o: "observed (Suc 0)
        (exec (merge_of None) (Run 0 (Seq (With 1 (Seq (Set 2) (Get None))) (Get None))) Map.empty
           \<lparr>heap = [ [(''a'', VNum 1), (''b'', VNum 2)], [(''b'', VNum 3)], [(''a'', VNum 10)] ],
             active = None\<rparr>)
       = Inr (TObj [(''a'', TNum 1), (''b'', TNum 2)])"
    by (simp add: observed_def engine_defs heap_defs clone_defs)
  show ?thesis
    using merge_of_None_pure env_ok_empty[of "{}"] i o k by (simp del: exec.simps)
qed

text \<open>
  C3 as stated fails: in the scope of store \<^verbatim>\<open>{a:1,b:2}\<close> a function that runs
  \<^verbatim>\<open>set({a:10})\<close> is bound live. \<^verbatim>\<open>get()\<close> is \<^verbatim>\<open>{a:1,b:2}\<close>; after a \<^verbatim>\<open>with({b:3}, ...)\<close>
  that calls the bound function has returned, \<^verbatim>\<open>get()\<close> is \<^verbatim>\<open>{a:10,b:2}\<close>.
\<close>

theorem with_live_binding_changes_parent_store:
  "observed (Suc 0)
     (exec (merge_of None)
        (Run 0 (Seq (Bind ''b'' (Some \<lparr>live = Some True\<rparr>) (Set 2)) (Get None)))
        Map.empty
        \<lparr>heap = [ [(''a'', VNum 1), (''b'', VNum 2)], [(''b'', VNum 3)], [(''a'', VNum 10)] ],
          active = None\<rparr>)
    = Inr (TObj [(''a'', TNum 1), (''b'', TNum 2)])
   \<and> observed (Suc 0)
     (exec (merge_of None)
        (Run 0 (Seq (Bind ''b'' (Some \<lparr>live = Some True\<rparr>) (Set 2))
               (Seq (With 1 (Call ''b'')) (Get None))))
        Map.empty
        \<lparr>heap = [ [(''a'', VNum 1), (''b'', VNum 2)], [(''b'', VNum 3)], [(''a'', VNum 10)] ],
          active = None\<rparr>)
    = Inr (TObj [(''a'', TNum 10), (''b'', TNum 2)])"
  by (simp add: observed_def engine_defs heap_defs clone_defs)

section \<open>Emitters\<close>

text \<open>
  C8 (amended). \<^verbatim>\<open>bindEmitter(emitter, opts)\<close> leaves the listeners already registered as
  they are and replaces every registration method the emitter has (\<^verbatim>\<open>addListener\<close>,
  \<^verbatim>\<open>on\<close>, \<^verbatim>\<open>once\<close>, \<^verbatim>\<open>prependListener\<close>, \<^verbatim>\<open>prependOnceListener\<close>) by one that registers
  \<^verbatim>\<open>bind(listener, opts)\<close> through the original method. \<^verbatim>\<open>bind\<close> is called when the listener
  is registered: the listener is bound to the store active at its registration, and is
  registered unchanged when no scope is active then.
\<close>

theorem bindEmitter_binds_at_registration:
  "listeners (bindEmitter opts em) = listeners em
   \<and> addListener (bindEmitter opts em) evt l s ls = addListener em evt (bind opts l s) s ls
   \<and> on (bindEmitter opts em) evt l s ls = on em evt (bind opts l s) s ls
   \<and> once (bindEmitter opts em) evt l s ls = once em evt (bind opts l s) s ls
   \<and> (case prependListener em of
         None \<Rightarrow> prependListener (bindEmitter opts em) = None
       | Some p \<Rightarrow> (\<exists>q. prependListener (bindEmitter opts em) = Some q
                      \<and> q evt l s ls = p evt (bind opts l s) s ls))
   \<and> (case prependOnceListener em of
         None \<Rightarrow> prependOnceListener (bindEmitter opts em) = None
       | Some p \<Rightarrow> (\<exists>q. prependOnceListener (bindEmitter opts em) = Some q
                      \<and> q evt l s ls = p evt (bind opts l s) s ls))
   \<and> (active s = None \<longrightarrow> on (bindEmitter opts em) evt l s ls = on em evt l s ls)"
  by (simp add: bindEmitter_def prebind_def bind_def getStore_def split: option.splits)

text \<open>A listener registered before \<^verbatim>\<open>bindEmitter\<close> and one registered after it, in the scope
  of store \<^verbatim>\<open>{x: 1}\<close>; the event is emitted outside every scope. The first listener
  reads \<^verbatim>\<open>undefined\<close>, the second reads 1.\<close>

theorem bindEmitter_binds_at_registration_witness:
  "active \<lparr>heap = [ [(''x'', VNum 1)] ], active = None\<rparr> = None
   \<and> on (bindEmitter None EventEmitter) ''evt'' (\<lambda>args. get (Some ''x''))
        \<lparr>heap = [ [(''x'', VNum 1)] ], active = None\<rparr> []
       = [(''evt'', False, \<lambda>args. get (Some ''x''))]
   \<and> fst (fst (emit
        (register (on (bindEmitter None
                         (register (on EventEmitter) ''evt'' (\<lambda>args. get (Some ''x''))
                            \<lparr>heap = [ [(''x'', VNum 1)] ], active = Some 0\<rparr> EventEmitter)))
           ''evt'' (\<lambda>args. get (Some ''x'')) \<lparr>heap = [ [(''x'', VNum 1)] ], active = Some 0\<rparr>
           (bindEmitter None
              (register (on EventEmitter) ''evt'' (\<lambda>args. get (Some ''x''))
                 \<lparr>heap = [ [(''x'', VNum 1)] ], active = Some 0\<rparr> EventEmitter)))
        ''evt'' [] \<lparr>heap = [ [(''x'', VNum 1)] ], active = None\<rparr>))
       = Inr [VUndef, VNum 1]"
proof -
  let ?rd = "(\<lambda>args. get (Some ''x'')) :: val listener"
  let ?s0 = "\<lparr>heap = [ [(''x'', VNum 1)] ], active = None\<rparr>"
  have a: "active ?s0 = None" by simp
  have "on (bindEmitter None EventEmitter) ''evt'' ?rd ?s0 [] = on EventEmitter ''evt'' ?rd ?s0 []"
    using bindEmitter_binds_at_registration[where opts = None and em = EventEmitter
        and evt = "''evt''" and l = ?rd and s = ?s0 and ls = "[]"] a
    by blast
  then have b: "on (bindEmitter None EventEmitter) ''evt'' ?rd ?s0 [] = [(''evt'', False, ?rd)]"
    by (simp add: EventEmitter_def append_entry_def)
  have c: "fst (fst (emit
        (register (on (bindEmitter None
                         (register (on EventEmitter) ''evt'' ?rd
                            \<lparr>heap = [ [(''x'', VNum 1)] ], active = Some 0\<rparr> EventEmitter)))
           ''evt'' ?rd \<lparr>heap = [ [(''x'', VNum 1)] ], active = Some 0\<rparr>
           (bindEmitter None
              (register (on EventEmitter) ''evt'' ?rd
                 \<lparr>heap = [ [(''x'', VNum 1)] ], active = Some 0\<rparr> EventEmitter)))
        ''evt'' [] ?s0))
       = Inr [VUndef, VNum 1]"
    by (simp add: emit_def register_def bindEmitter_def prebind_def EventEmitter_def
        append_entry_def engine_defs heap_defs clone_defs)
  show ?thesis
    using a b c by simp
qed

text \<open>
  C8 as stated fails: \<^verbatim>\<open>bindEmitter\<close> is called in the scope of store \<^verbatim>\<open>{x: 1}\<close>, the
  listener is registered later in the scope of store \<^verbatim>\<open>{x: 5}\<close>, and the event is emitted
  outside every scope. The listener reads 5; bound to the store that was active when
  \<^verbatim>\<open>bindEmitter\<close> was called it would read 1. With the live option it is the same.
\<close>

theorem bindEmitter_uses_store_of_registration:
  "fst (fst (emit
      (register (on (bindEmitter None EventEmitter)) ''evt'' (\<lambda>args. get (Some ''x''))
         \<lparr>heap = [ [(''x'', VNum 1)], [(''x'', VNum 5)] ], active = Some 1\<rparr>
         (bindEmitter None EventEmitter))
      ''evt'' [] \<lparr>heap = [ [(''x'', VNum 1)], [(''x'', VNum 5)] ], active = None\<rparr>))
     = Inr [VNum 5]
   \<and> fst (fst (emit
      (register (on (bindEmitter (Some \<lparr>live = Some True\<rparr>) EventEmitter)) ''evt''
         (\<lambda>args. get (Some ''x''))
         \<lparr>heap = [ [(''x'', VNum 1)], [(''x'', VNum 5)] ], active = Some 1\<rparr>
         (bindEmitter (Some \<lparr>live = Some True\<rparr>) EventEmitter))
      ''evt'' [] \<lparr>heap = [ [(''x'', VNum 1)], [(''x'', VNum 5)] ], active = None\<rparr>))
     = Inr [VNum 5]
   \<and> fst (bind None (\<lambda>args. get (Some ''x''))
        \<lparr>heap = [ [(''x'', VNum 1)], [(''x'', VNum 5)] ], active = Some 0\<rparr> []
        \<lparr>heap = [ [(''x'', VNum 1)], [(''x'', VNum 5)] ], active = None\<rparr>)
     = Inr (VNum 1)"
  by (simp add: emit_def register_def bindEmitter_def prebind_def EventEmitter_def
      append_entry_def engine_defs heap_defs clone_defs)

end
